theory Spec2Isabelle
  imports Complex_Main
begin

section \<open>Multi-armed bandits: simulators and exploration strategies\<close>

text \<open>
  A shallow embedding of the code cells of \<^verbatim>\<open>02_Multi_Armed_Bandits.ipynb\<close>.

  Conventions of the embedding.
  \<^item> NumPy \<^verbatim>\<open>float64\<close> values are modelled as exact reals: \<^verbatim>\<open>Q\<close>, \<^verbatim>\<open>N\<close>,
    \<^verbatim>\<open>alpha\<close>, \<^verbatim>\<open>beta\<close> (all created by \<^verbatim>\<open>np.zeros\<close>/\<^verbatim>\<open>np.ones\<close>) are
    \<open>real list\<close>s. Rounding error is outside the model.
  \<^item> The process-wide random source \<^verbatim>\<open>np.random\<close> is an explicit state that is passed
    through every function that draws from it, and returned advanced.
  \<^item> A Python exception is a value \<open>Inl e\<close> of a sum type.
  \<^item> Objects mutated in place (\<^verbatim>\<open>self.current_step += 1\<close>) are returned updated.
\<close>

subsection \<open>Exceptions\<close>

datatype py_error = IndexError | OverflowError | ValueError | AssertionError | AttributeError

subsection \<open>The random source\<close>

text \<open>
  The generator is an oracle: what the \<open>i\<close>-th call returns is fixed by the seed, and
  \<open>rng_pos\<close> counts the calls made so far. One field per NumPy function the notebook
  calls: \<^verbatim>\<open>rand()\<close>, \<^verbatim>\<open>randint(k)\<close>, \<^verbatim>\<open>beta(a, b)\<close> and \<^verbatim>\<open>randn(d)\<close>.
\<close>

record rng =
  rng_rand :: "nat \<Rightarrow> real"
  rng_randint :: "nat \<Rightarrow> nat \<Rightarrow> nat"
  rng_beta :: "nat \<Rightarrow> real list \<Rightarrow> real list \<Rightarrow> real list"
  rng_randn :: "nat \<Rightarrow> nat \<Rightarrow> real list"
  rng_pos :: nat

text \<open>
  What NumPy documents of its generator: \<^verbatim>\<open>rand()\<close> lies in \<open>[0, 1)\<close>,
  \<^verbatim>\<open>randint(n)\<close> in \<open>[0, n)\<close>, and the array-valued draws have the shape asked for.
\<close>

definition valid_rng :: "rng \<Rightarrow> bool" where
  "valid_rng g \<longleftrightarrow>
     (\<forall>i. 0 \<le> rng_rand g i \<and> rng_rand g i < 1) \<and>
     (\<forall>i n. 0 < n \<longrightarrow> rng_randint g i n < n) \<and>
     (\<forall>i a b. length (rng_beta g i a b) = length a) \<and>
     (\<forall>i d. length (rng_randn g i d) = d)"

definition advance :: "rng \<Rightarrow> rng" where
  "advance g = g\<lparr>rng_pos := rng_pos g + 1\<rparr>"

definition np_random_rand :: "rng \<Rightarrow> real \<times> rng" where
  "np_random_rand g = (rng_rand g (rng_pos g), advance g)"

text \<open>\<^verbatim>\<open>np.random.randint(k)\<close> raises \<^verbatim>\<open>ValueError\<close> when \<open>k \<le> 0\<close>.\<close>

definition np_random_randint :: "nat \<Rightarrow> rng \<Rightarrow> (py_error + nat) \<times> rng" where
  "np_random_randint n g =
     (if n = 0 then (Inl ValueError, g)
      else (Inr (rng_randint g (rng_pos g) n), advance g))"

definition np_random_beta :: "real list \<Rightarrow> real list \<Rightarrow> rng \<Rightarrow> real list \<times> rng" where
  "np_random_beta a b g = (rng_beta g (rng_pos g) a b, advance g)"

definition np_random_randn :: "nat \<Rightarrow> rng \<Rightarrow> real list \<times> rng" where
  "np_random_randn d g = (rng_randn g (rng_pos g) d, advance g)"

subsection \<open>IEEE 754 binary formats\<close>

text \<open>
  Rounding a real to a binary floating-point format with \<open>p\<close>-bit significands whose
  least positive (subnormal) value is \<open>2\<^sup>e\<^sup>m\<^sup>i\<^sup>n\<close>, to nearest, ties to the even
  significand. In the binade \<open>2\<^sup>e \<le> |x| < 2\<^sup>e\<^sup>+\<^sup>1\<close> the format's values are the multiples of
  \<open>2\<^sup>e\<^sup>-\<^sup>p\<^sup>+\<^sup>1\<close>, or of \<open>2\<^sup>e\<^sup>m\<^sup>i\<^sup>n\<close> in the subnormal range. The exponent is unbounded
  above here; the formats below say where they overflow.
\<close>

definition round_half_even :: "real \<Rightarrow> int" where
  "round_half_even y =
     (let f = \<lfloor>y\<rfloor>; d = y - real_of_int f in
      if d < 1 / 2 then f
      else if 1 / 2 < d then f + 1
      else if even f then f else f + 1)"

definition round_binary :: "nat \<Rightarrow> int \<Rightarrow> real \<Rightarrow> real" where
  "round_binary p emin x =
     (if x = 0 then 0
      else let c = max (\<lfloor>log 2 \<bar>x\<bar>\<rfloor> - (int p - 1)) emin;
               q = 2 powr real_of_int c
           in q * real_of_int (round_half_even (x / q)))"

text \<open>
  \<^verbatim>\<open>float32\<close> has 24-bit significands and least value \<open>2\<^sup>-\<^sup>1\<^sup>4\<^sup>9\<close>.
  \<^verbatim>\<open>.astype(np.float32)\<close> rounds every element of a \<^verbatim>\<open>float64\<close> array. Where the
  rounded magnitude reaches \<open>2\<^sup>1\<^sup>2\<^sup>8\<close> NumPy gives an infinity; the contexts that are cast
  in the notebook are standard normal samples, far below that, and the model does not
  follow infinities through the dot product.
\<close>

definition astype_float32 :: "real list \<Rightarrow> real list" where
  "astype_float32 xs = map (round_binary 24 (- 149)) xs"

text \<open>
  \<^verbatim>\<open>float64\<close>, the element type of \<^verbatim>\<open>np.zeros(k)\<close>: 53-bit significands, least value
  \<open>2\<^sup>-\<^sup>1\<^sup>0\<^sup>7\<^sup>4\<close>, greatest finite value \<open>(2\<^sup>5\<^sup>3 - 1) * 2\<^sup>9\<^sup>7\<^sup>1\<close>. A value is finite, an infinity
  or a NaN. Every operation computes the exact result and rounds it; a rounded result
  beyond the greatest finite value is an infinity. NumPy scalars do not raise on overflow,
  on division by zero or on an invalid operation, they warn and return the infinity or the
  NaN. The two zeros are not told apart, which matters only in the sign of a quotient by
  zero; it is given as for \<open>+0\<close>.
\<close>

datatype f64 = Fin real | PInf | NInf | NaN

definition f64_max :: real where
  "f64_max = (2 ^ 53 - 1) * 2 ^ 971"

definition f64_of_real :: "real \<Rightarrow> f64" where
  "f64_of_real x =
     (let y = round_binary 53 (- 1074) x in
      if f64_max < y then PInf else if y < - f64_max then NInf else Fin y)"

fun f64_neg :: "f64 \<Rightarrow> f64" where
  "f64_neg (Fin a) = Fin (- a)"
| "f64_neg PInf = NInf"
| "f64_neg NInf = PInf"
| "f64_neg NaN = NaN"

fun f64_add :: "f64 \<Rightarrow> f64 \<Rightarrow> f64" where
  "f64_add (Fin a) (Fin b) = f64_of_real (a + b)"
| "f64_add NaN y = NaN"
| "f64_add x NaN = NaN"
| "f64_add PInf NInf = NaN"
| "f64_add NInf PInf = NaN"
| "f64_add PInf y = PInf"
| "f64_add x PInf = PInf"
| "f64_add NInf y = NInf"
| "f64_add x NInf = NInf"

definition f64_sub :: "f64 \<Rightarrow> f64 \<Rightarrow> f64" where
  "f64_sub x y = f64_add x (f64_neg y)"

fun f64_div :: "f64 \<Rightarrow> f64 \<Rightarrow> f64" where
  "f64_div (Fin a) (Fin b) =
     (if b = 0 then (if a = 0 then NaN else if 0 < a then PInf else NInf)
      else f64_of_real (a / b))"
| "f64_div NaN y = NaN"
| "f64_div x NaN = NaN"
| "f64_div (Fin a) y = Fin 0"
| "f64_div PInf (Fin b) = (if 0 \<le> b then PInf else NInf)"
| "f64_div NInf (Fin b) = (if 0 \<le> b then NInf else PInf)"
| "f64_div x y = NaN"

subsection \<open>NumPy arrays\<close>

text \<open>
  Reading \<^verbatim>\<open>xs[i]\<close> with a Python integer \<open>i\<close>: an index in \<open>[-n, -1]\<close> counts from the
  end, anything outside \<open>[-n, n)\<close> fails. NumPy first converts the index to a C
  \<^verbatim>\<open>long\<close> (64 bits where the notebook runs); an index that fits and is out of bounds
  raises \<^verbatim>\<open>IndexError\<close>. An index that does not fit is converted to an array: from
  \<open>2\<^sup>6\<^sup>3\<close> up to \<open>2\<^sup>6\<^sup>4 - 1\<close> that is an unsigned 64-bit scalar, whose conversion to a
  \<^verbatim>\<open>long\<close> raises \<^verbatim>\<open>OverflowError\<close>; beyond 64 bits it is an array of objects, which is
  no index: \<^verbatim>\<open>IndexError\<close>. An array has fewer than \<open>2\<^sup>6\<^sup>3\<close> elements, so an index in
  \<open>[-n, n)\<close> always fits, and the bounds can be tested first.
\<close>

definition np_position :: "nat \<Rightarrow> int \<Rightarrow> py_error + nat" where
  "np_position n i =
     (if 0 \<le> i \<and> i < int n then Inr (nat i)
      else if - int n \<le> i \<and> i < 0 then Inr (nat (int n + i))
      else if 2 ^ 63 \<le> i \<and> i < 2 ^ 64 then Inl OverflowError
      else Inl IndexError)"

definition np_getitem :: "'a list \<Rightarrow> int \<Rightarrow> py_error + 'a" where
  "np_getitem xs i = (case np_position (length xs) i of Inl e \<Rightarrow> Inl e | Inr j \<Rightarrow> Inr (xs ! j))"

text \<open>
  \<^verbatim>\<open>np.argmax\<close>: the index of the first occurrence of the maximum; \<^verbatim>\<open>ValueError\<close> on
  an empty array. The scan keeps the best index and value seen so far and replaces them
  only by a strictly larger value.
\<close>

fun argmax_scan :: "nat \<Rightarrow> real \<Rightarrow> nat \<Rightarrow> real list \<Rightarrow> nat" where
  "argmax_scan best v i [] = best"
| "argmax_scan best v i (x # xs) =
     (if v < x then argmax_scan i x (Suc i) xs else argmax_scan best v (Suc i) xs)"

definition np_argmax :: "real list \<Rightarrow> py_error + nat" where
  "np_argmax xs = (case xs of [] \<Rightarrow> Inl ValueError | x # rest \<Rightarrow> Inr (argmax_scan 0 x 1 rest))"

subsection \<open>\<^verbatim>\<open>BernoulliBandit\<close>\<close>

record BernoulliBandit =
  bb_p :: "real list"
  bb_k :: nat

definition BernoulliBandit_init :: "real list \<Rightarrow> BernoulliBandit" where
  "BernoulliBandit_init ps = \<lparr>bb_p = ps, bb_k = length ps\<rparr>"

text \<open>
  \<^verbatim>\<open>return 1 if np.random.rand() < self.p[action] else 0\<close>. Python evaluates the left
  operand of \<open><\<close> first: the draw is made before \<^verbatim>\<open>self.p[action]\<close> can raise, so the
  random source has advanced also when the call fails.
\<close>

definition BernoulliBandit_step :: "BernoulliBandit \<Rightarrow> int \<Rightarrow> rng \<Rightarrow> (py_error + int) \<times> rng" where
  "BernoulliBandit_step self action g =
     (let (u, g') = np_random_rand g in
      case np_getitem (bb_p self) action of
        Inl e \<Rightarrow> (Inl e, g')
      | Inr pa \<Rightarrow> (Inr (if u < pa then 1 else 0), g'))"

subsection \<open>\<^verbatim>\<open>epsilon_greedy\<close>\<close>

text \<open>
  The local variables of \<^verbatim>\<open>epsilon_greedy\<close>. \<open>eg_actions\<close> is a ghost variable: the
  source appends only the reward of a round to \<^verbatim>\<open>rewards_history\<close>; the model also
  records the arm that was pulled. Nothing is ever read from it.
\<close>

record eg_state =
  eg_Q :: "real list"
  eg_N :: "real list"
  eg_rewards :: "int list"
  eg_actions :: "nat list"

definition eg_init :: "nat \<Rightarrow> eg_state" where
  "eg_init k = \<lparr>eg_Q = replicate k 0, eg_N = replicate k 0, eg_rewards = [], eg_actions = []\<rparr>"

text \<open>
  Action selection:
  \<^verbatim>\<open>if np.random.rand() < epsilon: action = np.random.randint(k)\<close>
  \<^verbatim>\<open>else: action = np.argmax(Q)\<close>
\<close>

definition epsilon_greedy_select :: "real \<Rightarrow> nat \<Rightarrow> real list \<Rightarrow> rng \<Rightarrow> (py_error + nat) \<times> rng" where
  "epsilon_greedy_select epsilon k Q g =
     (let (u, g1) = np_random_rand g in
      if u < epsilon then np_random_randint k g1 else (np_argmax Q, g1))"

text \<open>
  The update:
  \<^verbatim>\<open>N[action] += 1\<close>
  \<^verbatim>\<open>Q[action] += (reward - Q[action]) / N[action]\<close>
  The division reads the count that the line before has already incremented.
\<close>

definition epsilon_greedy_update ::
    "real list \<times> real list \<Rightarrow> nat \<times> real \<Rightarrow> py_error + real list \<times> real list" where
  "epsilon_greedy_update QN ar =
     (let (Q, N) = QN; (action, reward) = ar in
      if action < length N then
        (let N' = N[action := N ! action + 1] in
         if action < length Q then
           Inr (Q[action := Q ! action + (reward - Q ! action) / N' ! action], N')
         else Inl IndexError)
      else Inl IndexError)"

text \<open>A sequence of updates, applied in order; the first failure ends it.\<close>

fun epsilon_greedy_updates ::
    "real list \<times> real list \<Rightarrow> (nat \<times> real) list \<Rightarrow> py_error + real list \<times> real list" where
  "epsilon_greedy_updates QN [] = Inr QN"
| "epsilon_greedy_updates QN (ar # ars) =
     (case epsilon_greedy_update QN ar of
        Inl e \<Rightarrow> Inl e
      | Inr QN' \<Rightarrow> epsilon_greedy_updates QN' ars)"

text \<open>The rewards that arm \<open>a\<close> received in a sequence of updates, in order.\<close>

definition rewards_of :: "nat \<Rightarrow> (nat \<times> real) list \<Rightarrow> real list" where
  "rewards_of a ars = map snd (filter (\<lambda>ar. fst ar = a) ars)"

text \<open>
  The arithmetic of \<open>epsilon_greedy_update\<close> is that of the reals. \<^verbatim>\<open>Q\<close> and \<^verbatim>\<open>N\<close> are
  \<^verbatim>\<open>float64\<close> arrays: the same two lines with every operation rounded, the reward
  converted to \<^verbatim>\<open>float64\<close> by the subtraction.
\<close>

definition epsilon_greedy_update_f64 ::
    "f64 list \<times> f64 list \<Rightarrow> nat \<times> f64 \<Rightarrow> py_error + f64 list \<times> f64 list" where
  "epsilon_greedy_update_f64 QN ar =
     (let (Q, N) = QN; (action, reward) = ar in
      if action < length N then
        (let N' = N[action := f64_add (N ! action) (Fin 1)] in
         if action < length Q then
           Inr (Q[action := f64_add (Q ! action)
                              (f64_div (f64_sub reward (Q ! action)) (N' ! action))], N')
         else Inl IndexError)
      else Inl IndexError)"

text \<open>A sequence of \<^verbatim>\<open>float64\<close> updates; the first failure ends it.\<close>

fun epsilon_greedy_updates_f64 ::
    "f64 list \<times> f64 list \<Rightarrow> (nat \<times> f64) list \<Rightarrow> py_error + f64 list \<times> f64 list" where
  "epsilon_greedy_updates_f64 QN [] = Inr QN"
| "epsilon_greedy_updates_f64 QN (ar # ars) =
     (case epsilon_greedy_update_f64 QN ar of
        Inl e \<Rightarrow> Inl e
      | Inr QN' \<Rightarrow> epsilon_greedy_updates_f64 QN' ars)"

text \<open>One pass through the body of the \<^verbatim>\<open>for\<close> loop.\<close>

definition epsilon_greedy_round ::
    "BernoulliBandit \<Rightarrow> nat \<Rightarrow> real \<Rightarrow> eg_state \<Rightarrow> rng \<Rightarrow> (py_error + eg_state) \<times> rng" where
  "epsilon_greedy_round bandit k epsilon st g =
     (case epsilon_greedy_select epsilon k (eg_Q st) g of
        (Inl e, g1) \<Rightarrow> (Inl e, g1)
      | (Inr action, g1) \<Rightarrow>
          (case BernoulliBandit_step bandit (int action) g1 of
             (Inl e, g2) \<Rightarrow> (Inl e, g2)
           | (Inr reward, g2) \<Rightarrow>
               (case epsilon_greedy_update (eg_Q st, eg_N st) (action, real_of_int reward) of
                  Inl e \<Rightarrow> (Inl e, g2)
                | Inr (Q', N') \<Rightarrow>
                    (Inr \<lparr>eg_Q = Q', eg_N = N',
                          eg_rewards = eg_rewards st @ [reward],
                          eg_actions = eg_actions st @ [action]\<rparr>, g2))))"

text \<open>\<^verbatim>\<open>for _ in range(num_steps)\<close>: the argument counts the rounds still to run.\<close>

fun epsilon_greedy_loop ::
    "BernoulliBandit \<Rightarrow> nat \<Rightarrow> real \<Rightarrow> nat \<Rightarrow> eg_state \<Rightarrow> rng \<Rightarrow> (py_error + eg_state) \<times> rng" where
  "epsilon_greedy_loop bandit k epsilon 0 st g = (Inr st, g)"
| "epsilon_greedy_loop bandit k epsilon (Suc n) st g =
     (case epsilon_greedy_round bandit k epsilon st g of
        (Inl e, g') \<Rightarrow> (Inl e, g')
      | (Inr st', g') \<Rightarrow> epsilon_greedy_loop bandit k epsilon n st' g')"

text \<open>The run up to the \<^verbatim>\<open>return\<close>, with all its local variables.\<close>

definition epsilon_greedy_run ::
    "BernoulliBandit \<Rightarrow> int \<Rightarrow> real \<Rightarrow> rng \<Rightarrow> (py_error + eg_state) \<times> rng" where
  "epsilon_greedy_run bandit num_steps epsilon g =
     epsilon_greedy_loop bandit (bb_k bandit) epsilon (nat num_steps) (eg_init (bb_k bandit)) g"

text \<open>\<^verbatim>\<open>return np.array(rewards_history), Q\<close>\<close>

definition epsilon_greedy ::
    "BernoulliBandit \<Rightarrow> int \<Rightarrow> real \<Rightarrow> rng \<Rightarrow> (py_error + int list \<times> real list) \<times> rng" where
  "epsilon_greedy bandit num_steps epsilon g =
     (case epsilon_greedy_run bandit num_steps epsilon g of
        (Inl e, g') \<Rightarrow> (Inl e, g')
      | (Inr st, g') \<Rightarrow> (Inr (eg_rewards st, eg_Q st), g'))"

subsection \<open>\<^verbatim>\<open>BernoulliBanditEnv\<close>\<close>

text \<open>
  The Gymnasium environment. Its two space objects never change and are left out, except
  that \<^verbatim>\<open>spaces.Discrete(self.k)\<close> asserts \<open>k > 0\<close>, so that an environment without
  arms cannot be constructed.
\<close>

record BernoulliBanditEnv =
  be_p :: "real list"
  be_k :: nat
  be_num_steps :: int
  be_current_step :: int

definition BernoulliBanditEnv_init :: "real list \<Rightarrow> int \<Rightarrow> py_error + BernoulliBanditEnv" where
  "BernoulliBanditEnv_init ps num_steps =
     (if length ps = 0 then Inl AssertionError
      else Inr \<lparr>be_p = ps, be_k = length ps, be_num_steps = num_steps, be_current_step = 0\<rparr>)"

text \<open>\<^verbatim>\<open>reset\<close> returns the dummy observation \<^verbatim>\<open>[0.0]\<close> and an empty \<^verbatim>\<open>info\<close>.\<close>

definition BernoulliBanditEnv_reset :: "BernoulliBanditEnv \<Rightarrow> (real list \<times> unit) \<times> BernoulliBanditEnv" where
  "BernoulliBanditEnv_reset self = (([0], ()), self\<lparr>be_current_step := 0\<rparr>)"

text \<open>
  \<^verbatim>\<open>step\<close> returns the five values \<^verbatim>\<open>obs, float(reward), done, False, info\<close>. When
  \<^verbatim>\<open>self.p[action]\<close> raises, the counter has not been touched yet.
\<close>

definition BernoulliBanditEnv_step ::
    "BernoulliBanditEnv \<Rightarrow> int \<Rightarrow> rng \<Rightarrow>
     (py_error + (real list \<times> real \<times> bool \<times> bool \<times> unit) \<times> BernoulliBanditEnv) \<times> rng" where
  "BernoulliBanditEnv_step self action g =
     (let (u, g') = np_random_rand g in
      case np_getitem (be_p self) action of
        Inl e \<Rightarrow> (Inl e, g')
      | Inr pa \<Rightarrow>
          (let reward = (if u < pa then 1 else 0) :: int;
               self' = self\<lparr>be_current_step := be_current_step self + 1\<rparr>;
               done = (be_current_step self' \<ge> be_num_steps self');
               obs = [0]
           in (Inr ((obs, real_of_int reward, done, False, ()), self'), g')))"

subsection \<open>\<^verbatim>\<open>SearchBandit\<close> and \<^verbatim>\<open>RecommenderSystemBandit\<close>\<close>

text \<open>
  \<^verbatim>\<open>w.dot(c)\<close> on two vectors raises \<^verbatim>\<open>ValueError\<close> when their lengths differ.
\<close>

definition np_dot :: "real list \<Rightarrow> real list \<Rightarrow> py_error + real" where
  "np_dot w c =
     (if length w = length c then Inr (sum_list (map (\<lambda>(x, y). x * y) (zip w c)))
      else Inl ValueError)"

record SearchBandit =
  sb_strategy_weights :: "real list list"
  sb_k :: nat
  sb_context_dim :: nat
  sb_num_queries :: int
  sb_current_step :: int

definition SearchBandit_init :: "real list list \<Rightarrow> nat \<Rightarrow> int \<Rightarrow> SearchBandit" where
  "SearchBandit_init strategy_weights context_dim num_queries =
     \<lparr>sb_strategy_weights = strategy_weights, sb_k = length strategy_weights,
      sb_context_dim = context_dim, sb_num_queries = num_queries, sb_current_step = 0\<rparr>"

definition SearchBandit_get_context :: "SearchBandit \<Rightarrow> rng \<Rightarrow> real list \<times> rng" where
  "SearchBandit_get_context self g = np_random_randn (sb_context_dim self) g"

text \<open>
  Here the row of weights is read, and the dot product taken, before the draw: a failing
  call leaves the random source where it was.
\<close>

definition SearchBandit_step ::
    "SearchBandit \<Rightarrow> int \<Rightarrow> real list \<Rightarrow> rng \<Rightarrow> (py_error + (int \<times> bool) \<times> SearchBandit) \<times> rng" where
  "SearchBandit_step self action query_context g =
     (case np_getitem (sb_strategy_weights self) action of
        Inl e \<Rightarrow> (Inl e, g)
      | Inr w \<Rightarrow>
          (case np_dot w query_context of
             Inl e \<Rightarrow> (Inl e, g)
           | Inr z \<Rightarrow>
               (let p = 1 / (1 + exp (- z));
                    (u, g') = np_random_rand g;
                    reward = (if u < p then 1 else 0) :: int;
                    self' = self\<lparr>sb_current_step := sb_current_step self + 1\<rparr>;
                    done = (sb_current_step self' \<ge> sb_num_queries self')
                in (Inr ((reward, done), self'), g'))))"

record RecommenderSystemBandit =
  rs_item_weights :: "real list list"
  rs_k :: nat
  rs_context_dim :: nat
  rs_num_users :: int
  rs_current_step :: int

definition RecommenderSystemBandit_init :: "real list list \<Rightarrow> nat \<Rightarrow> int \<Rightarrow> RecommenderSystemBandit" where
  "RecommenderSystemBandit_init item_weights context_dim num_users =
     \<lparr>rs_item_weights = item_weights, rs_k = length item_weights,
      rs_context_dim = context_dim, rs_num_users = num_users, rs_current_step = 0\<rparr>"

definition RecommenderSystemBandit_step ::
    "RecommenderSystemBandit \<Rightarrow> int \<Rightarrow> real list \<Rightarrow> rng \<Rightarrow>
     (py_error + (int \<times> bool) \<times> RecommenderSystemBandit) \<times> rng" where
  "RecommenderSystemBandit_step self action user_context g =
     (case np_getitem (rs_item_weights self) action of
        Inl e \<Rightarrow> (Inl e, g)
      | Inr w \<Rightarrow>
          (case np_dot w user_context of
             Inl e \<Rightarrow> (Inl e, g)
           | Inr z \<Rightarrow>
               (let p = 1 / (1 + exp (- z));
                    (u, g') = np_random_rand g;
                    reward = (if u < p then 1 else 0) :: int;
                    self' = self\<lparr>rs_current_step := rs_current_step self + 1\<rparr>;
                    done = (rs_current_step self' \<ge> rs_num_users self')
                in (Inr ((reward, done), self'), g'))))"

subsection \<open>\<^verbatim>\<open>RecommenderSystemGymEnv\<close>\<close>

text \<open>
  Besides its counter this environment stores the context of the current user, a
  \<^verbatim>\<open>randn\<close> sample cast to \<^verbatim>\<open>float32\<close>. The constructor does not set it:
  \<^verbatim>\<open>self.context\<close> exists only after the first \<^verbatim>\<open>reset\<close>, and reading it earlier raises
  \<^verbatim>\<open>AttributeError\<close>.
\<close>

record RecommenderSystemGymEnv =
  rg_item_weights :: "real list list"
  rg_k :: nat
  rg_context_dim :: nat
  rg_num_users :: int
  rg_current_step :: int
  rg_context :: "real list option"

definition RecommenderSystemGymEnv_init ::
    "real list list \<Rightarrow> nat \<Rightarrow> int \<Rightarrow> py_error + RecommenderSystemGymEnv" where
  "RecommenderSystemGymEnv_init item_weights context_dim num_users =
     (if length item_weights = 0 then Inl AssertionError
      else Inr \<lparr>rg_item_weights = item_weights, rg_k = length item_weights,
                rg_context_dim = context_dim, rg_num_users = num_users,
                rg_current_step = 0, rg_context = None\<rparr>)"

definition RecommenderSystemGymEnv_reset ::
    "RecommenderSystemGymEnv \<Rightarrow> rng \<Rightarrow> ((real list \<times> unit) \<times> RecommenderSystemGymEnv) \<times> rng" where
  "RecommenderSystemGymEnv_reset self g =
     (let (sample, g') = np_random_randn (rg_context_dim self) g;
          c = astype_float32 sample
      in (((c, ()), self\<lparr>rg_current_step := 0, rg_context := Some c\<rparr>), g'))"

definition RecommenderSystemGymEnv_step ::
    "RecommenderSystemGymEnv \<Rightarrow> int \<Rightarrow> rng \<Rightarrow>
     (py_error + (real list \<times> real \<times> bool \<times> bool \<times> unit) \<times> RecommenderSystemGymEnv) \<times> rng" where
  "RecommenderSystemGymEnv_step self action g =
     (case np_getitem (rg_item_weights self) action of
        Inl e \<Rightarrow> (Inl e, g)
      | Inr w \<Rightarrow>
          (case rg_context self of
             None \<Rightarrow> (Inl AttributeError, g)
           | Some c \<Rightarrow>
               (case np_dot w c of
                  Inl e \<Rightarrow> (Inl e, g)
                | Inr z \<Rightarrow>
                    (let p = 1 / (1 + exp (- z));
                         (u, g1) = np_random_rand g;
                         reward = (if u < p then 1 else 0) :: real;
                         self1 = self\<lparr>rg_current_step := rg_current_step self + 1\<rparr>;
                         done = (rg_current_step self1 \<ge> rg_num_users self1);
                         (sample, g2) = np_random_randn (rg_context_dim self1) g1;
                         c' = astype_float32 sample;
                         self2 = self1\<lparr>rg_context := Some c'\<rparr>
                     in (Inr ((c', reward, done, False, ()), self2), g2)))))"

subsection \<open>\<^verbatim>\<open>run_thompson_search\<close>\<close>

text \<open>
  The local variables of \<^verbatim>\<open>run_thompson_search\<close>; \<open>ts_actions\<close> is a ghost variable,
  as \<open>eg_actions\<close> is.
\<close>

record ts_state =
  ts_alpha :: "real list"
  ts_beta :: "real list"
  ts_rewards :: "int list"
  ts_actions :: "nat list"

definition ts_init :: "nat \<Rightarrow> ts_state" where
  "ts_init k = \<lparr>ts_alpha = replicate k 1, ts_beta = replicate k 1, ts_rewards = [], ts_actions = []\<rparr>"

text \<open>
  \<^verbatim>\<open>if reward == 1: alpha[action] += 1\<close>
  \<^verbatim>\<open>else: beta[action] += 1\<close>
\<close>

definition thompson_update ::
    "real list \<times> real list \<Rightarrow> nat \<times> int \<Rightarrow> py_error + real list \<times> real list" where
  "thompson_update ab ar =
     (let (alpha, beta) = ab; (action, reward) = ar in
      if reward = 1 then
        (if action < length alpha then Inr (alpha[action := alpha ! action + 1], beta)
         else Inl IndexError)
      else
        (if action < length beta then Inr (alpha, beta[action := beta ! action + 1])
         else Inl IndexError))"

text \<open>One pass through the body of \<^verbatim>\<open>while True\<close>, up to the test of \<^verbatim>\<open>done\<close>.\<close>

definition thompson_round ::
    "SearchBandit \<Rightarrow> ts_state \<Rightarrow> rng \<Rightarrow> (py_error + bool \<times> SearchBandit \<times> ts_state) \<times> rng" where
  "thompson_round env st g =
     (let (query_context, g1) = SearchBandit_get_context env g;
          (sampled_q, g2) = np_random_beta (ts_alpha st) (ts_beta st) g1
      in case np_argmax sampled_q of
           Inl e \<Rightarrow> (Inl e, g2)
         | Inr action \<Rightarrow>
             (case SearchBandit_step env (int action) query_context g2 of
                (Inl e, g3) \<Rightarrow> (Inl e, g3)
              | (Inr ((reward, done), env'), g3) \<Rightarrow>
                  (case thompson_update (ts_alpha st, ts_beta st) (action, reward) of
                     Inl e \<Rightarrow> (Inl e, g3)
                   | Inr (alpha', beta') \<Rightarrow>
                       (Inr (done, env',
                             \<lparr>ts_alpha = alpha', ts_beta = beta',
                              ts_rewards = ts_rewards st @ [reward],
                              ts_actions = ts_actions st @ [action]\<rparr>), g3))))"

text \<open>
  \<^verbatim>\<open>while True\<close> ends: a round that does not end the loop has moved the counter of the
  environment one step closer to its horizon.
\<close>

function thompson_loop ::
    "SearchBandit \<Rightarrow> ts_state \<Rightarrow> rng \<Rightarrow> (py_error + SearchBandit \<times> ts_state) \<times> rng" where
  "thompson_loop env st g =
     (case thompson_round env st g of
        (Inl e, g') \<Rightarrow> (Inl e, g')
      | (Inr (done, env', st'), g') \<Rightarrow>
          if done then (Inr (env', st'), g') else thompson_loop env' st' g')"
  by pat_completeness auto
termination
proof (relation "measure (\<lambda>(env, st, g). nat (sb_num_queries env - sb_current_step env))")
  show "wf (measure (\<lambda>(env, st, g). nat (sb_num_queries env - sb_current_step env)))"
    by simp
next
  fix env st g x1 g' x2 d y env' st'
  assume "(x1, g') = thompson_round env st g" "x1 = Inr x2" "(d, y) = x2" "(env', st') = y" "\<not> d"
  then have "thompson_round env st g = (Inr (False, env', st'), g')" by simp
  then have "sb_current_step env' = sb_current_step env + 1 \<and>
             sb_num_queries env' = sb_num_queries env \<and>
             sb_current_step env' < sb_num_queries env'"
    unfolding thompson_round_def SearchBandit_step_def
    by (auto simp: Let_def np_random_rand_def split: sum.splits prod.splits if_splits)
  then show "((env', st', g'), (env, st, g))
          \<in> measure (\<lambda>(env, st, g). nat (sb_num_queries env - sb_current_step env))"
    by simp
qed

declare thompson_loop.simps [simp del]

text \<open>The run up to the \<^verbatim>\<open>return\<close>, with all its local variables.\<close>

definition run_thompson_search_run ::
    "SearchBandit \<Rightarrow> rng \<Rightarrow> (py_error + SearchBandit \<times> ts_state) \<times> rng" where
  "run_thompson_search_run env g = thompson_loop env (ts_init (sb_k env)) g"

text \<open>\<^verbatim>\<open>return np.array(rewards_history), alpha, beta\<close>\<close>

definition run_thompson_search ::
    "SearchBandit \<Rightarrow> rng \<Rightarrow> (py_error + int list \<times> real list \<times> real list) \<times> rng" where
  "run_thompson_search env g =
     (case run_thompson_search_run env g of
        (Inl e, g') \<Rightarrow> (Inl e, g')
      | (Inr (env', st), g') \<Rightarrow> (Inr (ts_rewards st, ts_alpha st, ts_beta st), g'))"

subsection \<open>What \<^verbatim>\<open>step\<close> hands back to Python\<close>

text \<open>
  The value after \<^verbatim>\<open>return\<close> as the caller sees it: a bare number, or a tuple.
\<close>

datatype pyval =
    PyInt int
  | PyFloat real
  | PyBool bool
  | PyArray "real list"
  | PyEmptyDict
  | PyTuple "pyval list"

text \<open>\<^verbatim>\<open>return 1 if np.random.rand() < self.p[action] else 0\<close>\<close>

definition BernoulliBandit_step_returns :: "BernoulliBandit \<Rightarrow> int \<Rightarrow> rng \<Rightarrow> py_error + pyval" where
  "BernoulliBandit_step_returns self action g =
     (case fst (BernoulliBandit_step self action g) of
        Inl e \<Rightarrow> Inl e
      | Inr reward \<Rightarrow> Inr (PyInt reward))"

text \<open>\<^verbatim>\<open>return obs, float(reward), done, False, info\<close>\<close>

definition BernoulliBanditEnv_step_returns :: "BernoulliBanditEnv \<Rightarrow> int \<Rightarrow> rng \<Rightarrow> py_error + pyval" where
  "BernoulliBanditEnv_step_returns self action g =
     (case fst (BernoulliBanditEnv_step self action g) of
        Inl e \<Rightarrow> Inl e
      | Inr ((obs, reward, done, truncated, info), self') \<Rightarrow>
          Inr (PyTuple [PyArray obs, PyFloat reward, PyBool done, PyBool truncated, PyEmptyDict]))"

subsection \<open>Sequences of \<^verbatim>\<open>step\<close> calls\<close>

text \<open>
  A caller that calls \<^verbatim>\<open>step\<close> once for every argument of a list, in order, and keeps
  what the calls return; the first exception ends it.
\<close>

fun step_calls ::
    "('env \<Rightarrow> 'a \<Rightarrow> rng \<Rightarrow> (py_error + 'r \<times> 'env) \<times> rng) \<Rightarrow> 'env \<Rightarrow> 'a list \<Rightarrow> rng
     \<Rightarrow> (py_error + 'r list \<times> 'env) \<times> rng" where
  "step_calls step env [] g = (Inr ([], env), g)"
| "step_calls step env (a # as) g =
     (case step env a g of
        (Inl e, g') \<Rightarrow> (Inl e, g')
      | (Inr (r, env'), g') \<Rightarrow>
          (case step_calls step env' as g' of
             (Inl e, g'') \<Rightarrow> (Inl e, g'')
           | (Inr (rs, env''), g'') \<Rightarrow> (Inr (r # rs, env''), g'')))"

subsection \<open>Invariants\<close>

text \<open>
  The invariant of the loop, in terms of the ghost list of actions: the arrays have
  length \<open>k\<close>, the actions are arm indices, one reward is recorded per action, every
  estimate lies in \<open>[0, 1]\<close>, \<open>N[i]\<close> counts the pulls of arm \<open>i\<close>, and the estimate of an
  arm that was never pulled is \<open>0\<close>.
\<close>

definition eg_inv :: "nat \<Rightarrow> eg_state \<Rightarrow> bool" where
  "eg_inv k st \<longleftrightarrow>
     length (eg_Q st) = k \<and> length (eg_N st) = k \<and>
     length (eg_rewards st) = length (eg_actions st) \<and>
     (\<forall>a \<in> set (eg_actions st). a < k) \<and>
     (\<forall>i<k. 0 \<le> eg_Q st ! i \<and> eg_Q st ! i \<le> 1 \<and>
            eg_N st ! i = real (count_list (eg_actions st) i) \<and>
            (i \<notin> set (eg_actions st) \<longrightarrow> eg_Q st ! i = 0))"


text \<open>
  The invariant of \<^verbatim>\<open>while True\<close> in \<^verbatim>\<open>run_thompson_search\<close>: for every arm the two
  pseudo-counts add up to \<open>2\<close> plus the number of times the arm was selected.
\<close>

definition ts_inv :: "nat \<Rightarrow> ts_state \<Rightarrow> bool" where
  "ts_inv k st \<longleftrightarrow>
     length (ts_alpha st) = k \<and> length (ts_beta st) = k \<and>
     length (ts_rewards st) = length (ts_actions st) \<and>
     (\<forall>a \<in> set (ts_actions st). a < k) \<and>
     (\<forall>i<k. ts_alpha st ! i + ts_beta st ! i = 2 + real (count_list (ts_actions st) i)) \<and>
     sum_list (ts_alpha st) + sum_list (ts_beta st) = 2 * real k + real (length (ts_actions st))"

text \<open>
  An environment as its constructor leaves it, whatever its counter: \<open>k\<close> rows of
  weights, each as long as a context.
\<close>

definition SearchBandit_wf :: "SearchBandit \<Rightarrow> bool" where
  "SearchBandit_wf env \<longleftrightarrow>
     sb_k env = length (sb_strategy_weights env) \<and> 0 < sb_k env \<and>
     (\<forall>w \<in> set (sb_strategy_weights env). length w = sb_context_dim env)"

subsection \<open>Generators used in the examples\<close>

text \<open>
  A generator whose every uniform draw is \<open>u\<close>, whose every \<^verbatim>\<open>randint(n)\<close> is \<open>j\<close>
  (or \<open>0\<close> where \<open>j\<close> is not below \<open>n\<close>), whose Beta samples are all \<open>1/2\<close> and whose
  normal samples are all \<open>0\<close>.
\<close>

definition const_rng :: "real \<Rightarrow> nat \<Rightarrow> rng" where
  "const_rng u j =
     \<lparr>rng_rand = (\<lambda>i. u),
      rng_randint = (\<lambda>i n. if j < n then j else 0),
      rng_beta = (\<lambda>i a b. map (\<lambda>x. 1 / 2) a),
      rng_randn = (\<lambda>i d. replicate d 0),
      rng_pos = 0\<rparr>"

text \<open>
  A generator whose draws change with the position: the uniform draws cycle through
  \<open>0, 1/4, 1/2, 3/4\<close>, the \<open>i\<close>-th \<^verbatim>\<open>randint(n)\<close> is \<open>i mod n\<close>, and the \<open>j\<close>-th
  component of the \<open>i\<close>-th Beta sample is one of \<open>1/6, \<dots>, 5/6\<close>, picked by
  \<open>i * (j + 1) mod 5\<close>.
\<close>

definition mod_rng :: rng where
  "mod_rng =
     \<lparr>rng_rand = (\<lambda>i. real (i mod 4) / 4),
      rng_randint = (\<lambda>i n. i mod n),
      rng_beta = (\<lambda>i a b. map (\<lambda>j. real (i * (j + 1) mod 5 + 1) / 6) [0 ..< length a]),
      rng_randn = (\<lambda>i d. replicate d 0),
      rng_pos = 0\<rparr>"

section \<open>Properties\<close>

subsection \<open>Indexing and the random source\<close>

lemma np_position_outside:
  "i \<ge> int n \<or> i < - int n \<Longrightarrow>
   np_position n i = Inl (if 2 ^ 63 \<le> i \<and> i < 2 ^ 64 then OverflowError else IndexError)"
  by (auto simp: np_position_def)

lemma np_position_inside:
  "0 \<le> i \<Longrightarrow> i < int n \<Longrightarrow> np_position n i = Inr (nat i)"
  by (simp add: np_position_def)

lemma np_position_from_end:
  "- int n \<le> i \<Longrightarrow> i < 0 \<Longrightarrow> np_position n i = Inr (nat (int n + i))"
  by (simp add: np_position_def)

lemma valid_rng_advance [simp]: "valid_rng (advance g) = valid_rng g"
  by (simp add: valid_rng_def advance_def)

lemma rng_pos_advance [simp]: "rng_pos (advance g) = rng_pos g + 1"
  by (simp add: advance_def)

lemma rng_rand_advance [simp]: "rng_rand (advance g) = rng_rand g"
  by (simp add: advance_def)

lemma rng_randint_advance [simp]: "rng_randint (advance g) = rng_randint g"
  by (simp add: advance_def)

lemma rng_beta_advance [simp]: "rng_beta (advance g) = rng_beta g"
  by (simp add: advance_def)

lemma rng_randn_advance [simp]: "rng_randn (advance g) = rng_randn g"
  by (simp add: advance_def)

lemma valid_const_rng: "0 \<le> u \<Longrightarrow> u < 1 \<Longrightarrow> valid_rng (const_rng u j)"
  by (simp add: valid_rng_def const_rng_def)

lemma valid_mod_rng: "valid_rng mod_rng"
proof -
  have "real (i mod 4) < 4" for i :: nat
  proof -
    have "i mod 4 < 4" by simp
    then show ?thesis by (simp only: of_nat_less_iff[symmetric, where 'a=real] of_nat_numeral)
  qed
  then show ?thesis by (simp add: valid_rng_def mod_rng_def)
qed

subsection \<open>The Bernoulli simulators\<close>

lemma BernoulliBandit_step_outside:
  "action \<ge> int (length (bb_p self)) \<or> action < - int (length (bb_p self)) \<Longrightarrow>
   BernoulliBandit_step self action g =
     (Inl (if 2 ^ 63 \<le> action \<and> action < 2 ^ 64 then OverflowError else IndexError),
      advance g)"
  by (simp add: BernoulliBandit_step_def np_random_rand_def np_getitem_def np_position_outside)

lemma BernoulliBandit_step_inside:
  "0 \<le> action \<Longrightarrow> action < int (length (bb_p self)) \<Longrightarrow>
   BernoulliBandit_step self action g =
     (Inr (if rng_rand g (rng_pos g) < bb_p self ! nat action then 1 else 0), advance g)"
  by (simp add: BernoulliBandit_step_def np_random_rand_def np_getitem_def np_position_inside)

lemma BernoulliBandit_step_from_end:
  "- int (length (bb_p self)) \<le> action \<Longrightarrow> action < 0 \<Longrightarrow>
   BernoulliBandit_step self action g =
     (Inr (if rng_rand g (rng_pos g) < bb_p self ! nat (int (length (bb_p self)) + action)
           then 1 else 0), advance g)"
  by (simp add: BernoulliBandit_step_def np_random_rand_def np_getitem_def np_position_from_end)

lemma BernoulliBandit_step_reward:
  "BernoulliBandit_step self action g = (Inr r, g') \<Longrightarrow> r = 0 \<or> r = 1"
  by (auto simp: BernoulliBandit_step_def np_random_rand_def split: sum.splits if_splits)

lemma BernoulliBandit_step_rng: "snd (BernoulliBandit_step self action g) = advance g"
  by (auto simp: BernoulliBandit_step_def np_random_rand_def split: sum.splits)

lemma BernoulliBanditEnv_step_outside:
  "action \<ge> int (length (be_p self)) \<or> action < - int (length (be_p self)) \<Longrightarrow>
   BernoulliBanditEnv_step self action g =
     (Inl (if 2 ^ 63 \<le> action \<and> action < 2 ^ 64 then OverflowError else IndexError),
      advance g)"
  by (simp add: BernoulliBanditEnv_step_def np_random_rand_def np_getitem_def np_position_outside)

lemma BernoulliBanditEnv_step_inside:
  "0 \<le> action \<Longrightarrow> action < int (length (be_p self)) \<Longrightarrow>
   BernoulliBanditEnv_step self action g =
     (Inr (([0], real_of_int (if rng_rand g (rng_pos g) < be_p self ! nat action then 1 else 0),
            be_current_step self + 1 \<ge> be_num_steps self, False, ()),
           self\<lparr>be_current_step := be_current_step self + 1\<rparr>), advance g)"
  by (simp add: BernoulliBanditEnv_step_def np_random_rand_def np_getitem_def np_position_inside)

lemma BernoulliBanditEnv_step_from_end:
  "- int (length (be_p self)) \<le> action \<Longrightarrow> action < 0 \<Longrightarrow>
   BernoulliBanditEnv_step self action g =
     (Inr (([0], real_of_int (if rng_rand g (rng_pos g)
                                   < be_p self ! nat (int (length (be_p self)) + action)
                              then 1 else 0),
            be_current_step self + 1 \<ge> be_num_steps self, False, ()),
           self\<lparr>be_current_step := be_current_step self + 1\<rparr>), advance g)"
  by (simp add: BernoulliBanditEnv_step_def np_random_rand_def np_getitem_def np_position_from_end)

lemma BernoulliBanditEnv_step_reward:
  "BernoulliBanditEnv_step self action g = (Inr ((obs, r, d, t, info), self'), g') \<Longrightarrow> r = 0 \<or> r = 1"
  by (auto simp: BernoulliBanditEnv_step_def np_random_rand_def Let_def split: sum.splits if_splits)

lemma BernoulliBanditEnv_step_rng: "snd (BernoulliBanditEnv_step self action g) = advance g"
  by (auto simp: BernoulliBanditEnv_step_def np_random_rand_def Let_def split: sum.splits)

text \<open>
  The index \<open>2\<^sup>6\<^sup>3\<close> does not fit a C \<^verbatim>\<open>long\<close>: \<^verbatim>\<open>step(2**63)\<close> fails with an
  \<^verbatim>\<open>OverflowError\<close>, not with an \<^verbatim>\<open>IndexError\<close>.
\<close>

lemma BernoulliBandit_step_overflow:
  "fst (BernoulliBandit_step (BernoulliBandit_init [1/10, 3/10, 8/10]) (2 ^ 63) g)
     = Inl OverflowError"
  by (simp add: BernoulliBandit_step_def BernoulliBandit_init_def np_random_rand_def
        np_getitem_def np_position_def)

text \<open>
  C3 (as stated, refuted): "\<^verbatim>\<open>step\<close> with \<^verbatim>\<open>arm_index\<close> outside \<open>[0, k)\<close> fails, and no
  out-of-range index is silently corrected". With \<open>p = [0.1, 0.3, 0.8]\<close> the index \<open>-1\<close>
  is outside \<open>[0, 3)\<close>, yet \<^verbatim>\<open>step(-1)\<close> returns a reward, drawn against \<open>p[2]\<close>.
\<close>

theorem step_negative_index_not_rejected:
  "(-1::int) \<notin> {0 ..< int (bb_k (BernoulliBandit_init [1/10, 3/10, 8/10]))} \<and>
   fst (BernoulliBandit_step (BernoulliBandit_init [1/10, 3/10, 8/10]) (-1) (const_rng (1/2) 0)) = Inr 1"
  by (simp add: BernoulliBandit_init_def BernoulliBandit_step_def np_random_rand_def
        np_getitem_def np_position_def const_rng_def)

text \<open>
  C3 (amended): for every \<open>k \<ge> 1\<close>, \<^verbatim>\<open>step\<close> of either Bernoulli simulator fails when
  \<^verbatim>\<open>arm_index\<close> is at least \<open>k\<close> or below \<open>-k\<close>; in particular \<^verbatim>\<open>step(k)\<close> fails. The
  exception is \<^verbatim>\<open>IndexError\<close> whenever the index fits a C \<^verbatim>\<open>long\<close>. The indices in
  \<open>[-k, -1]\<close> are not rejected.
\<close>

theorem step_index_error:
  assumes "self = BernoulliBandit_init ps"
    and "BernoulliBanditEnv_init ps num_steps = Inr env"
    and "action \<ge> int (bb_k self) \<or> action < - int (bb_k self)"
  shows "1 \<le> bb_k self \<and> be_k env = bb_k self \<and>
         (\<exists>e. fst (BernoulliBandit_step self action g) = Inl e) \<and>
         (\<exists>e. fst (BernoulliBanditEnv_step env action g) = Inl e) \<and>
         (- (2 ^ 63) \<le> action \<and> action < 2 ^ 63 \<longrightarrow>
            fst (BernoulliBandit_step self action g) = Inl IndexError \<and>
            fst (BernoulliBanditEnv_step env action g) = Inl IndexError) \<and>
         (\<exists>e. fst (BernoulliBandit_step self (int (bb_k self)) g) = Inl e) \<and>
         (\<exists>e. fst (BernoulliBanditEnv_step env (int (be_k env)) g) = Inl e)"
proof -
  have env: "env = \<lparr>be_p = ps, be_k = length ps, be_num_steps = num_steps, be_current_step = 0\<rparr>"
    and ne: "ps \<noteq> []"
    using assms(2) by (auto simp: BernoulliBanditEnv_init_def split: if_splits)
  have k: "bb_k self = length ps" "bb_p self = ps" "be_k env = length ps" "be_p env = ps"
    using assms(1) env by (simp_all add: BernoulliBandit_init_def)
  have out: "action \<ge> int (length (bb_p self)) \<or> action < - int (length (bb_p self))"
    "action \<ge> int (length (be_p env)) \<or> action < - int (length (be_p env))"
    using assms(3) k by simp_all
  have "1 \<le> bb_k self" using ne k by (cases ps) simp_all
  moreover have "\<exists>e. fst (BernoulliBandit_step self action g) = Inl e"
    using BernoulliBandit_step_outside[OF out(1), of g] by simp
  moreover have "\<exists>e. fst (BernoulliBanditEnv_step env action g) = Inl e"
    using BernoulliBanditEnv_step_outside[OF out(2), of g] by simp
  moreover have "- (2 ^ 63) \<le> action \<and> action < 2 ^ 63 \<longrightarrow>
            fst (BernoulliBandit_step self action g) = Inl IndexError \<and>
            fst (BernoulliBanditEnv_step env action g) = Inl IndexError"
    using BernoulliBandit_step_outside[OF out(1), of g]
      BernoulliBanditEnv_step_outside[OF out(2), of g] by simp
  moreover have "\<exists>e. fst (BernoulliBandit_step self (int (bb_k self)) g) = Inl e"
    using BernoulliBandit_step_outside[of self "int (bb_k self)" g] k by simp
  moreover have "\<exists>e. fst (BernoulliBanditEnv_step env (int (be_k env)) g) = Inl e"
    using BernoulliBanditEnv_step_outside[of env "int (be_k env)" g] k by simp
  ultimately show ?thesis using k by simp
qed

theorem step_index_error_witness:
  "BernoulliBanditEnv_init [1/10, 3/10, 8/10] 1000
     = Inr \<lparr>be_p = [1/10, 3/10, 8/10], be_k = 3, be_num_steps = 1000, be_current_step = 0\<rparr> \<and>
   (3::int) \<ge> int (bb_k (BernoulliBandit_init [1/10, 3/10, 8/10])) \<and>
   - (2 ^ 63) \<le> (3::int) \<and> (3::int) < 2 ^ 63 \<and>
   fst (BernoulliBandit_step (BernoulliBandit_init [1/10, 3/10, 8/10]) 3 (const_rng (1/2) 0))
     = Inl IndexError \<and>
   fst (BernoulliBanditEnv_step
          \<lparr>be_p = [1/10, 3/10, 8/10], be_k = 3, be_num_steps = 1000, be_current_step = 0\<rparr>
          3 (const_rng (1/2) 0)) = Inl IndexError"
proof -
  have e: "BernoulliBanditEnv_init [1/10, 3/10, 8/10] 1000
     = Inr \<lparr>be_p = [1/10, 3/10, 8/10], be_k = 3, be_num_steps = 1000, be_current_step = 0\<rparr>"
    by (simp add: BernoulliBanditEnv_init_def)
  have a: "(3::int) \<ge> int (bb_k (BernoulliBandit_init [1/10, 3/10, 8/10]))
           \<or> (3::int) < - int (bb_k (BernoulliBandit_init [1/10, 3/10, 8/10]))"
    by (simp add: BernoulliBandit_init_def)
  have b: "- (2 ^ 63) \<le> (3::int) \<and> (3::int) < 2 ^ 63" by simp
  note T = step_index_error[OF refl e a, of "const_rng (1/2) 0"]
  have i: "fst (BernoulliBandit_step (BernoulliBandit_init [1/10, 3/10, 8/10]) 3 (const_rng (1/2) 0))
             = Inl IndexError \<and>
           fst (BernoulliBanditEnv_step
                  \<lparr>be_p = [1/10, 3/10, 8/10], be_k = 3, be_num_steps = 1000, be_current_step = 0\<rparr>
                  3 (const_rng (1/2) 0)) = Inl IndexError"
    using T b by blast
  have a': "(3::int) \<ge> int (bb_k (BernoulliBandit_init [1/10, 3/10, 8/10]))"
    by (simp add: BernoulliBandit_init_def)
  from e a' b i show ?thesis by blast
qed

text \<open>
  C9: for every \<open>k \<ge> 1\<close> and every \<^verbatim>\<open>arm_index\<close> in \<open>[-k, -1]\<close>,
  \<^verbatim>\<open>BernoulliBandit.step\<close> returns normally, with a reward in \<open>{0, 1}\<close> drawn against
  \<open>p[k + arm_index]\<close>.
\<close>

theorem step_negative_index_wraps:
  assumes "self = BernoulliBandit_init ps" and "1 \<le> bb_k self"
    and "- int (bb_k self) \<le> action" and "action \<le> -1"
  shows "\<exists>r. BernoulliBandit_step self action g = (Inr r, advance g) \<and>
             (r = 0 \<or> r = 1) \<and>
             r = (if rng_rand g (rng_pos g) < ps ! nat (int (bb_k self) + action) then 1 else 0)"
proof -
  have k: "bb_k self = length ps" "bb_p self = ps"
    using assms(1) by (simp_all add: BernoulliBandit_init_def)
  from assms(3,4) k have "- int (length (bb_p self)) \<le> action" "action < 0" by simp_all
  from BernoulliBandit_step_from_end[OF this, of g] k show ?thesis by simp
qed

theorem step_negative_index_wraps_witness:
  "(1::nat) \<le> bb_k (BernoulliBandit_init [1/10, 3/10, 8/10]) \<and>
   - int (bb_k (BernoulliBandit_init [1/10, 3/10, 8/10])) \<le> -3 \<and> (-3::int) \<le> -1 \<and>
   BernoulliBandit_step (BernoulliBandit_init [1/10, 3/10, 8/10]) (-3) (const_rng (1/2) 0)
     = (Inr 0, advance (const_rng (1/2) 0))"
proof -
  have k: "(1::nat) \<le> bb_k (BernoulliBandit_init [1/10, 3/10, 8/10])"
    and lo: "- int (bb_k (BernoulliBandit_init [1/10, 3/10, 8/10])) \<le> -3"
    and hi: "(-3::int) \<le> -1"
    by (simp_all add: BernoulliBandit_init_def)
  from step_negative_index_wraps[OF refl k lo hi, of "const_rng (1/2) 0"] k lo hi
  show ?thesis by (simp add: BernoulliBandit_init_def const_rng_def)
qed

text \<open>
  C6: \<^verbatim>\<open>step(arm_index)\<close> of the Bernoulli simulators draws one uniform value \<open>u\<close> in
  \<open>[0, 1)\<close> and returns reward \<open>1\<close> if \<open>u < p[arm_index]\<close>, else \<open>0\<close>; every call
  advances the random source by exactly one draw; a returned reward is \<open>0\<close> or \<open>1\<close>.
\<close>

theorem step_bernoulli_draw:
  assumes "valid_rng g" and "self = BernoulliBandit_init ps" and "be_p env = ps"
    and "0 \<le> action" and "action < int (bb_k self)"
  shows "\<exists>u r. u = rng_rand g (rng_pos g) \<and> 0 \<le> u \<and> u < 1 \<and>
           r = (if u < ps ! nat action then 1 else 0) \<and> (r = 0 \<or> r = 1) \<and>
           BernoulliBandit_step self action g = (Inr r, advance g) \<and>
           BernoulliBanditEnv_step env action g =
             (Inr (([0], real_of_int r, be_current_step env + 1 \<ge> be_num_steps env, False, ()),
                   env\<lparr>be_current_step := be_current_step env + 1\<rparr>), advance g) \<and>
           rng_pos (advance g) = rng_pos g + 1 \<and>
           rng_rand (advance g) = rng_rand g \<and>
           (\<forall>a. snd (BernoulliBandit_step self a g) = advance g \<and>
                snd (BernoulliBanditEnv_step env a g) = advance g) \<and>
           (\<forall>a r' g'. BernoulliBandit_step self a g = (Inr r', g') \<longrightarrow> r' = 0 \<or> r' = 1) \<and>
           (\<forall>a obs r' d t info env' g'.
              BernoulliBanditEnv_step env a g = (Inr ((obs, r', d, t, info), env'), g')
              \<longrightarrow> r' = 0 \<or> r' = 1)"
proof -
  have k: "bb_k self = length ps" "bb_p self = ps"
    using assms(2) by (simp_all add: BernoulliBandit_init_def)
  define u where "u = rng_rand g (rng_pos g)"
  define r :: int where "r = (if u < ps ! nat action then 1 else 0)"
  have u: "0 \<le> u" "u < 1" using assms(1) by (simp_all add: valid_rng_def u_def)
  have r: "r = 0 \<or> r = 1" by (simp add: r_def)
  have a: "action < int (length (bb_p self))" "action < int (length (be_p env))"
    using assms(3,5) k by simp_all
  have s1: "BernoulliBandit_step self action g = (Inr r, advance g)"
    using BernoulliBandit_step_inside[OF assms(4) a(1), of g] k by (simp add: r_def u_def)
  have s2: "BernoulliBanditEnv_step env action g =
             (Inr (([0], real_of_int r, be_current_step env + 1 \<ge> be_num_steps env, False, ()),
                   env\<lparr>be_current_step := be_current_step env + 1\<rparr>), advance g)"
    using BernoulliBanditEnv_step_inside[OF assms(4) a(2), of g] assms(3)
    by (simp add: r_def u_def)
  have s3: "\<forall>a. snd (BernoulliBandit_step self a g) = advance g \<and>
                snd (BernoulliBanditEnv_step env a g) = advance g"
    by (simp add: BernoulliBandit_step_rng BernoulliBanditEnv_step_rng)
  have s4: "\<forall>a r' g'. BernoulliBandit_step self a g = (Inr r', g') \<longrightarrow> r' = 0 \<or> r' = 1"
    using BernoulliBandit_step_reward by blast
  have s5: "\<forall>a obs r' d t info env' g'.
              BernoulliBanditEnv_step env a g = (Inr ((obs, r', d, t, info), env'), g')
              \<longrightarrow> r' = 0 \<or> r' = 1"
    using BernoulliBanditEnv_step_reward by blast
  have s6: "rng_pos (advance g) = rng_pos g + 1" "rng_rand (advance g) = rng_rand g"
    by simp_all
  show ?thesis
    apply (rule exI[of _ u], rule exI[of _ r])
    apply (intro conjI)
    using u r s1 s2 s3 s4 s5 s6 by (simp_all add: u_def r_def)
qed

theorem step_bernoulli_draw_witness:
  "valid_rng (const_rng (1/2) 0) \<and>
   (0::int) \<le> 2 \<and> 2 < int (bb_k (BernoulliBandit_init [1/10, 3/10, 8/10])) \<and>
   BernoulliBandit_step (BernoulliBandit_init [1/10, 3/10, 8/10]) 2 (const_rng (1/2) 0)
     = (Inr 1, advance (const_rng (1/2) 0)) \<and>
   BernoulliBanditEnv_step
       \<lparr>be_p = [1/10, 3/10, 8/10], be_k = 3, be_num_steps = 1000, be_current_step = 0\<rparr>
       2 (const_rng (1/2) 0)
     = (Inr (([0], 1, False, False, ()),
             \<lparr>be_p = [1/10, 3/10, 8/10], be_k = 3, be_num_steps = 1000, be_current_step = 1\<rparr>),
        advance (const_rng (1/2) 0)) \<and>
   rng_pos (advance (const_rng (1/2) 0)) = 1"
proof -
  have v: "valid_rng (const_rng (1/2) 0)" by (simp add: valid_const_rng)
  have e: "be_p \<lparr>be_p = [1/10, 3/10, 8/10], be_k = 3, be_num_steps = 1000, be_current_step = 0\<rparr>
             = [1/10, 3/10, 8/10]" by simp
  have lo: "(0::int) \<le> 2" and hi: "2 < int (bb_k (BernoulliBandit_init [1/10, 3/10, 8/10]))"
    by (simp_all add: BernoulliBandit_init_def)
  from step_bernoulli_draw[OF v refl e lo hi] v lo hi
  show ?thesis by (auto simp: const_rng_def)
qed

subsection \<open>Rounding to nearest\<close>

lemma round_half_even_of_int [simp]: "round_half_even (real_of_int k) = k"
  by (simp add: round_half_even_def)

lemma round_half_even_error: "\<bar>real_of_int (round_half_even y) - y\<bar> \<le> 1 / 2"
proof -
  have "real_of_int \<lfloor>y\<rfloor> \<le> y" "y < real_of_int \<lfloor>y\<rfloor> + 1" by linarith+
  then show ?thesis by (auto simp: round_half_even_def Let_def)
qed

lemma binade:
  assumes "x \<noteq> 0"
  shows "2 powr real_of_int \<lfloor>log 2 \<bar>x\<bar>\<rfloor> \<le> \<bar>x\<bar>"
    and "\<bar>x\<bar> < 2 powr real_of_int (\<lfloor>log 2 \<bar>x\<bar>\<rfloor> + 1)"
proof -
  have "0 < \<bar>x\<bar>" using assms by simp
  from floor_log_eq_powr_iff[OF this, of 2 "\<lfloor>log 2 \<bar>x\<bar>\<rfloor>"]
  show "2 powr real_of_int \<lfloor>log 2 \<bar>x\<bar>\<rfloor> \<le> \<bar>x\<bar>"
    and "\<bar>x\<bar> < 2 powr real_of_int (\<lfloor>log 2 \<bar>x\<bar>\<rfloor> + 1)" by simp_all
qed

lemma binade_unique:
  assumes "x \<noteq> 0" and "2 powr real_of_int e \<le> \<bar>x\<bar>" and "\<bar>x\<bar> < 2 powr real_of_int (e + 1)"
  shows "\<lfloor>log 2 \<bar>x\<bar>\<rfloor> = e"
proof -
  have "0 < \<bar>x\<bar>" using assms(1) by simp
  from floor_log_eq_powr_iff[OF this, of 2 e] assms(2,3) show ?thesis by simp
qed

lemma round_binary_at:
  assumes "x \<noteq> 0" and "2 powr real_of_int e \<le> \<bar>x\<bar>" and "\<bar>x\<bar> < 2 powr real_of_int (e + 1)"
    and "c = max (e - (int p - 1)) emin" and "q = 2 powr real_of_int c"
  shows "round_binary p emin x = q * real_of_int (round_half_even (x / q))"
  using binade_unique[OF assms(1,2,3)] assms(1,4,5)
  by (simp add: round_binary_def Let_def)

lemma round_binary_error:
  assumes "1 \<le> p"
  shows "\<bar>round_binary p emin x - x\<bar>
           \<le> \<bar>x\<bar> * 2 powr (- real p) + 2 powr (real_of_int emin - 1)"
proof (cases "x = 0")
  case True
  then show ?thesis by (simp add: round_binary_def)
next
  case False
  define e where "e = \<lfloor>log 2 \<bar>x\<bar>\<rfloor>"
  define c where "c = max (e - (int p - 1)) emin"
  define q where "q = 2 powr real_of_int c"
  have q: "0 < q" by (simp add: q_def)
  have rb: "round_binary p emin x = q * real_of_int (round_half_even (x / q))"
    using False by (simp add: round_binary_def Let_def e_def c_def q_def)
  have "\<bar>q * real_of_int (round_half_even (x / q)) - x\<bar>
          = q * \<bar>real_of_int (round_half_even (x / q)) - x / q\<bar>"
  proof -
    have "q * real_of_int (round_half_even (x / q)) - x
            = q * (real_of_int (round_half_even (x / q)) - x / q)"
      using q by (simp add: field_simps)
    then show ?thesis using q by (simp add: abs_mult)
  qed
  also have "\<dots> \<le> q * (1 / 2)"
    using round_half_even_error[of "x / q"] q by (intro mult_left_mono) simp_all
  finally have err: "\<bar>round_binary p emin x - x\<bar> \<le> q / 2" unfolding rb by simp
  have "q / 2 \<le> \<bar>x\<bar> * 2 powr (- real p) + 2 powr (real_of_int emin - 1)"
  proof (cases "emin \<le> e - (int p - 1)")
    case True
    then have c: "c = e - (int p - 1)" by (simp add: c_def)
    have "real_of_int c - 1 = real_of_int e + (- real p)" using c assms by simp
    have "q / 2 = 2 powr (real_of_int c - 1)"
      unfolding q_def by (simp add: powr_diff)
    also have "\<dots> = 2 powr (real_of_int e + (- real p))"
      using \<open>real_of_int c - 1 = real_of_int e + (- real p)\<close> by (simp only:)
    also have "\<dots> = 2 powr real_of_int e * 2 powr (- real p)"
      by (rule powr_add)
    finally have "q / 2 = 2 powr real_of_int e * 2 powr (- real p)" .
    also have "\<dots> \<le> \<bar>x\<bar> * 2 powr (- real p)"
      using binade(1)[OF False] by (intro mult_right_mono) (simp_all add: e_def)
    finally show ?thesis by (simp add: add_increasing2)
  next
    case False
    then have c: "c = emin" by (simp add: c_def)
    have "q / 2 = 2 powr (real_of_int emin - 1)"
      unfolding q_def c by (simp add: powr_diff)
    then show ?thesis by simp
  qed
  with err show ?thesis by linarith
qed

text \<open>A value \<open>m * 2\<^sup>j\<close> with \<open>|m| < 2\<^sup>p\<close> and \<open>j \<ge> emin\<close> belongs to the format.\<close>

lemma round_binary_exact:
  assumes "x = real_of_int m * 2 powr real_of_int j" and "\<bar>m\<bar> < 2 ^ p" and "emin \<le> j" and "1 \<le> p"
  shows "round_binary p emin x = x"
proof (cases "x = 0")
  case True
  then show ?thesis by (simp add: round_binary_def)
next
  case False
  define e where "e = \<lfloor>log 2 \<bar>x\<bar>\<rfloor>"
  define c where "c = max (e - (int p - 1)) emin"
  define q where "q = 2 powr real_of_int c"
  have q: "0 < q" by (simp add: q_def)
  have "\<bar>x\<bar> = real_of_int \<bar>m\<bar> * 2 powr real_of_int j"
    unfolding assms(1) by (simp add: abs_mult)
  also have "\<dots> < 2 ^ p * 2 powr real_of_int j"
  proof -
    have "real_of_int \<bar>m\<bar> < real_of_int (2 ^ p)" using assms(2) by (simp only: of_int_less_iff)
    then show ?thesis by (intro mult_strict_right_mono) simp_all
  qed
  also have "\<dots> = 2 powr (real p + real_of_int j)"
    by (simp add: powr_add powr_realpow)
  finally have up: "\<bar>x\<bar> < 2 powr (real p + real_of_int j)" .
  have "2 powr real_of_int e < 2 powr (real p + real_of_int j)"
    using binade(1)[OF False] up unfolding e_def by linarith
  then have "real_of_int e < real p + real_of_int j"
    by simp
  then have "e < int p + j" by linarith
  then have cj: "c \<le> j" using assms(3) by (simp add: c_def)
  define t where "t = nat (j - c)"
  have j: "real_of_int j = real_of_int c + real t" using cj by (simp add: t_def)
  have "x / q = real_of_int m * (2 powr real_of_int j / 2 powr real_of_int c)"
    by (simp add: assms(1) q_def)
  also have "2 powr real_of_int j / 2 powr real_of_int c = 2 ^ t"
    unfolding j by (simp add: powr_add powr_realpow)
  finally have xq: "x / q = real_of_int (m * 2 ^ t)" by simp
  have "round_binary p emin x = q * real_of_int (round_half_even (x / q))"
    using False by (simp add: round_binary_def Let_def e_def c_def q_def)
  also have "\<dots> = q * (x / q)"
    unfolding xq by (simp only: round_half_even_of_int)
  also have "\<dots> = x" using q by simp
  finally show ?thesis .
qed


lemma round_half_even_near:
  assumes "\<bar>d\<bar> < 1 / 2"
  shows "round_half_even (real_of_int k + d) = k"
proof (cases "0 \<le> d")
  case True
  then have "\<lfloor>real_of_int k + d\<rfloor> = k" using assms by (intro floor_unique) simp_all
  then show ?thesis using assms True by (simp add: round_half_even_def Let_def)
next
  case False
  then have "\<lfloor>real_of_int k + d\<rfloor> = k - 1" using assms by (intro floor_unique) simp_all
  then show ?thesis using assms False by (simp add: round_half_even_def Let_def)
qed

lemma round_half_even_tie:
  "round_half_even (real_of_int k + 1 / 2) = (if even k then k else k + 1)"
proof -
  have "\<lfloor>real_of_int k + 1 / 2\<rfloor> = k" by (intro floor_unique) simp_all
  then show ?thesis by (simp add: round_half_even_def Let_def)
qed

subsection \<open>\<^verbatim>\<open>float64\<close> operations\<close>

text \<open>Rounding a \<^verbatim>\<open>float64\<close> operation whose exact result is small does not overflow.\<close>

lemma f64_error:
  "\<bar>round_binary 53 (- 1074) x - x\<bar> \<le> \<bar>x\<bar> / 2 ^ 53 + 1 / 2 ^ 1075"
proof -
  have e1: "2 powr (- real (53::nat)) = 1 / 2 ^ 53"
    by (simp add: powr_minus_divide)
  have "real_of_int (- 1074) - 1 = - 1075" by simp
  then have "2 powr (real_of_int (- 1074) - 1) = 2 powr (- 1075)" by (simp only:)
  also have "\<dots> = 1 / 2 ^ 1075" by (simp add: powr_minus_divide)
  finally have e2: "2 powr (real_of_int (- 1074) - 1) = 1 / 2 ^ 1075" .
  have "\<bar>round_binary 53 (- 1074) x - x\<bar>
          \<le> \<bar>x\<bar> * 2 powr (- real (53::nat)) + 2 powr (real_of_int (- 1074) - 1)"
    by (rule round_binary_error) simp
  then show ?thesis
    unfolding e1 e2 by (simp only: times_divide_eq_right mult.right_neutral)
qed

lemma f64_of_real_small:
  assumes "\<bar>x\<bar> \<le> 2 ^ 100"
  shows "f64_of_real x = Fin (round_binary 53 (- 1074) x)"
proof -
  let ?y = "round_binary 53 (- 1074) x"
  have "\<bar>?y\<bar> \<le> \<bar>x\<bar> + \<bar>?y - x\<bar>" by linarith
  also have "\<dots> \<le> \<bar>x\<bar> + (\<bar>x\<bar> / 2 ^ 53 + 1 / 2 ^ 1075)"
    using f64_error[of x] by simp
  also have "\<dots> \<le> 2 ^ 100 + (2 ^ 100 / 2 ^ 53 + 1 / 2 ^ 1075)"
    using assms by (intro add_mono divide_right_mono) simp_all
  also have "\<dots> \<le> f64_max" by (simp add: f64_max_def)
  finally have "\<bar>?y\<bar> \<le> f64_max" .
  then have "\<not> f64_max < ?y" and "\<not> ?y < - f64_max" by linarith+
  then show ?thesis by (simp add: f64_of_real_def Let_def)
qed







lemma f64_of_real_exact:
  assumes "x = real_of_int m * 2 ^ j" and "\<bar>m\<bar> < 2 ^ 53" and "\<bar>x\<bar> \<le> 2 ^ 100"
  shows "f64_of_real x = Fin x"
proof -
  have "x = real_of_int m * 2 powr real_of_int (int j)"
    using assms(1) by (simp add: powr_realpow)
  then have "round_binary 53 (- 1074) x = x"
    using assms(2) by (rule round_binary_exact) simp_all
  then show ?thesis using f64_of_real_small[OF assms(3)] by simp
qed

lemma f64_of_real_1: "f64_of_real 1 = Fin 1"
  by (rule f64_of_real_exact[of _ 1 0]) simp_all

lemma f64_of_real_2: "f64_of_real 2 = Fin 2"
  by (rule f64_of_real_exact[of _ 1 1]) simp_all

lemma f64_of_real_3: "f64_of_real 3 = Fin 3"
  by (rule f64_of_real_exact[of _ 3 0]) simp_all





lemma f64_of_real_0: "f64_of_real 0 = Fin 0"
  by (rule f64_of_real_exact[of _ 0 0]) simp_all

lemma f64_of_real_m1: "f64_of_real (- 1) = Fin (- 1)"
  by (rule f64_of_real_exact[of _ "- 1" 0]) simp_all


text \<open>\<open>- 1 / 3\<close> rounds to \<open>- 6004799503160661 / 2\<^sup>5\<^sup>4\<close>, printed \<^verbatim>\<open>-0.3333333333333333\<close>.\<close>

lemma f64_of_real_third:
  "f64_of_real (- (1 / 3)) = Fin (- (6004799503160661 / 18014398509481984))"
proof -
  let ?x = "- (1 / 3) :: real"
  have q: "(2::real) powr real_of_int (- 54) = 1 / 18014398509481984"
    by (simp only: of_int_numeral of_int_minus) (simp add: powr_minus_divide)
  have "round_binary 53 (- 1074) ?x
          = 2 powr real_of_int (- 54)
              * real_of_int (round_half_even (?x / 2 powr real_of_int (- 54)))"
    by (rule round_binary_at[where e = "- 2" and c = "- 54"])
       (simp_all add: powr_minus_divide)
  also have "?x / 2 powr real_of_int (- 54) = real_of_int (- 6004799503160661) + (- (1 / 3))"
    unfolding q by simp
  also have "round_half_even (real_of_int (- 6004799503160661) + (- (1 / 3))) = - 6004799503160661"
    by (rule round_half_even_near) simp
  finally have "round_binary 53 (- 1074) ?x = - (6004799503160661 / 18014398509481984)"
    unfolding q by simp
  then show ?thesis by (simp add: f64_of_real_def f64_max_def)
qed

text \<open>\<open>1 - 6004799503160661 / 2\<^sup>5\<^sup>4\<close> lies halfway between two floats; the tie goes to the
  even one, \<open>6004799503160662 / 2\<^sup>5\<^sup>3\<close>, printed \<^verbatim>\<open>0.6666666666666667\<close>.\<close>

lemma f64_of_real_two_thirds:
  "f64_of_real (12009599006321323 / 18014398509481984)
     = Fin (3002399751580331 / 4503599627370496)"
proof -
  let ?x = "12009599006321323 / 18014398509481984 :: real"
  have q: "(2::real) powr real_of_int (- 53) = 1 / 9007199254740992"
    by (simp only: of_int_numeral of_int_minus) (simp add: powr_minus_divide)
  have "round_binary 53 (- 1074) ?x
          = 2 powr real_of_int (- 53)
              * real_of_int (round_half_even (?x / 2 powr real_of_int (- 53)))"
    by (rule round_binary_at[where e = "- 1" and c = "- 53"])
       (simp_all add: powr_minus_divide)
  also have "?x / 2 powr real_of_int (- 53) = real_of_int 6004799503160661 + 1 / 2"
    unfolding q by simp
  also have "round_half_even (real_of_int 6004799503160661 + 1 / 2) = 6004799503160662"
    by (simp only: round_half_even_tie) simp
  finally have "round_binary 53 (- 1074) ?x = 3002399751580331 / 4503599627370496"
    unfolding q by simp
  then show ?thesis by (simp add: f64_of_real_def f64_max_def)
qed

subsection \<open>The epsilon-greedy estimate\<close>

lemma epsilon_greedy_update_Inr:
  assumes "epsilon_greedy_update (Q, N) (a, r) = Inr (Q', N')"
  shows "a < length N" and "a < length Q"
    and "N' = N[a := N ! a + 1]"
    and "Q' = Q[a := Q ! a + (r - Q ! a) / (N ! a + 1)]"
  using assms
  by (auto simp: epsilon_greedy_update_def Let_def split: if_splits)

lemma epsilon_greedy_update_succeeds:
  "a < length N \<Longrightarrow> a < length Q \<Longrightarrow>
   epsilon_greedy_update (Q, N) (a, r) = Inr (Q[a := Q ! a + (r - Q ! a) / (N ! a + 1)], N[a := N ! a + 1])"
  by (simp add: epsilon_greedy_update_def Let_def)

lemma rewards_of_Cons:
  "rewards_of a ((b, r) # ars) = (if b = a then r # rewards_of a ars else rewards_of a ars)"
  by (simp add: rewards_of_def)

lemma rewards_of_Nil [simp]: "rewards_of a [] = []"
  by (simp add: rewards_of_def)

lemma incremental_mean_step:
  fixes q n r :: real
  assumes "0 \<le> n"
  shows "(q + (r - q) / (n + 1)) * (n + 1) = q * n + r"
proof -
  have "n + 1 \<noteq> 0" using assms by linarith
  then show ?thesis by (simp add: field_simps)
qed

lemma epsilon_greedy_updates_total:
  assumes "epsilon_greedy_updates (Q0, N0) ars = Inr (Q, N)" and "a < length Q0" and "0 \<le> N0 ! a"
  shows "length Q = length Q0 \<and> length N = length N0 \<and>
         N ! a = N0 ! a + real (length (rewards_of a ars)) \<and>
         Q ! a * N ! a = Q0 ! a * N0 ! a + sum_list (rewards_of a ars)"
  using assms
proof (induction ars arbitrary: Q0 N0)
  case Nil
  then show ?case by simp
next
  case (Cons ar ars)
  obtain b r where ar: "ar = (b, r)" by (cases ar)
  from Cons.prems(1) obtain Q1 N1 where
    u: "epsilon_greedy_update (Q0, N0) (b, r) = Inr (Q1, N1)" and
    rest: "epsilon_greedy_updates (Q1, N1) ars = Inr (Q, N)"
    by (auto simp: ar split: sum.splits)
  note U = epsilon_greedy_update_Inr[OF u]
  have len: "length Q1 = length Q0" "length N1 = length N0" using U by simp_all
  have a1: "a < length Q1" using Cons.prems(2) len by simp
  show ?case
  proof (cases "b = a")
    case True
    have n1: "N1 ! a = N0 ! a + 1" using U True by simp
    have q1: "Q1 ! a = Q0 ! a + (r - Q0 ! a) / (N0 ! a + 1)" using U True by simp
    have pos: "0 \<le> N1 ! a" using n1 Cons.prems(3) by simp
    have prod: "Q1 ! a * N1 ! a = Q0 ! a * N0 ! a + r"
      unfolding n1 q1 using incremental_mean_step[OF Cons.prems(3)] .
    have rw: "rewards_of a (ar # ars) = r # rewards_of a ars"
      using True by (simp add: ar rewards_of_Cons)
    from Cons.IH[OF rest a1 pos]
    have lq: "length Q = length Q1" and ln: "length N = length N1"
      and n: "N ! a = N1 ! a + real (length (rewards_of a ars))"
      and q: "Q ! a * N ! a = Q1 ! a * N1 ! a + sum_list (rewards_of a ars)"
      by blast+
    have "N ! a = N0 ! a + real (length (rewards_of a (ar # ars)))"
      unfolding rw using n n1 by simp
    moreover have "Q ! a * N ! a = Q0 ! a * N0 ! a + sum_list (rewards_of a (ar # ars))"
      unfolding rw using q prod by simp
    ultimately show ?thesis using lq ln len by simp
  next
    case False
    have n1: "N1 ! a = N0 ! a" using U False by simp
    have q1: "Q1 ! a = Q0 ! a" using U False by simp
    have pos: "0 \<le> N1 ! a" using n1 Cons.prems(3) by simp
    have rw: "rewards_of a (ar # ars) = rewards_of a ars"
      using False by (simp add: ar rewards_of_Cons)
    from Cons.IH[OF rest a1 pos]
    have lq: "length Q = length Q1" and ln: "length N = length N1"
      and n: "N ! a = N1 ! a + real (length (rewards_of a ars))"
      and q: "Q ! a * N ! a = Q1 ! a * N1 ! a + sum_list (rewards_of a ars)"
      by blast+
    have "N ! a = N0 ! a + real (length (rewards_of a (ar # ars)))"
      unfolding rw using n n1 by simp
    moreover have "Q ! a * N ! a = Q0 ! a * N0 ! a + sum_list (rewards_of a (ar # ars))"
      unfolding rw using q n1 q1 by simp
    ultimately show ?thesis using lq ln len by simp
  qed
qed

text \<open>
  Over the reals, with no rounding: after any sequence of updates, started from
  \<open>Q = N = 0\<close>, in which arm \<open>a\<close> received the rewards \<open>r\<^sub>1 \<dots> r\<^sub>n\<close> (\<open>n \<ge> 1\<close>) in this
  order, \<open>N[a] = n\<close> and \<open>Q[a]\<close> is their arithmetic mean: each update divides by the
  count it has just incremented.
\<close>

lemma exact_update_is_mean:
  assumes "epsilon_greedy_updates (replicate k 0, replicate k 0) ars = Inr (Q, N)"
    and "a < k" and "rewards_of a ars \<noteq> []"
  shows "N ! a = real (length (rewards_of a ars)) \<and>
         Q ! a = sum_list (rewards_of a ars) / real (length (rewards_of a ars))"
proof -
  have a: "a < length (replicate k (0::real))" and z: "0 \<le> replicate k (0::real) ! a"
    using assms(2) by simp_all
  from epsilon_greedy_updates_total[OF assms(1) a z] assms(2)
  have n: "N ! a = real (length (rewards_of a ars))"
    and qn: "Q ! a * N ! a = sum_list (rewards_of a ars)"
    by auto
  have "real (length (rewards_of a ars)) \<noteq> 0" using assms(3) by simp
  with n qn have "Q ! a = sum_list (rewards_of a ars) / real (length (rewards_of a ars))"
    by (simp add: field_simps)
  with n show ?thesis by simp
qed

lemma exact_update_is_mean_example:
  "epsilon_greedy_updates (replicate 2 0, replicate 2 0) [(1, 1), (0, 1), (1, 0), (1, 1)]
     = Inr ([1, 2 / 3], [1, 3]) \<and>
   rewards_of 1 [(1, 1), (0, 1), (1, 0), (1, 1)] = [1, 0, 1] \<and>
   [1, 2 / 3 :: real] ! 1 = sum_list [1, 0, 1] / real (length [1, 0, 1 :: real])"
proof -
  have run: "epsilon_greedy_updates (replicate 2 0, replicate 2 0) [(1, 1), (0, 1), (1, 0), (1, 1)]
     = Inr ([1, 2 / 3], [1, 3])"
    by (simp add: epsilon_greedy_update_def numeral_2_eq_2 Let_def)
  have rs: "rewards_of 1 [(1, 1), (0, 1), (1, 0), (1, 1)] = [1, 0, 1]"
    by (simp add: rewards_of_def)
  from exact_update_is_mean[OF run, of 1] rs run show ?thesis by simp
qed

subsection \<open>The epsilon-greedy estimate in \<^verbatim>\<open>float64\<close>\<close>






text \<open>
  Three updates with the rewards \<open>1, 1, 0\<close>: Python prints the estimate as
  \<^verbatim>\<open>0.6666666666666667\<close>, which is \<open>3002399751580331 / 2\<^sup>5\<^sup>2\<close>.
\<close>

lemma epsilon_greedy_updates_f64_example:
  "epsilon_greedy_updates_f64 ([Fin 0], [Fin 0]) [(0, Fin 1), (0, Fin 1), (0, Fin 0)]
     = Inr ([Fin (3002399751580331 / 4503599627370496)], [Fin 3])"
proof -
  have s1: "epsilon_greedy_update_f64 ([Fin 0], [Fin 0]) (0, Fin 1) = Inr ([Fin 1], [Fin 1])"
    by (simp add: epsilon_greedy_update_f64_def Let_def f64_sub_def f64_of_real_1)
  have s2: "epsilon_greedy_update_f64 ([Fin 1], [Fin 1]) (0, Fin 1) = Inr ([Fin 1], [Fin 2])"
    by (simp add: epsilon_greedy_update_f64_def Let_def f64_sub_def f64_of_real_0 f64_of_real_1
        f64_of_real_2)
  have s3: "epsilon_greedy_update_f64 ([Fin 1], [Fin 2]) (0, Fin 0)
              = Inr ([Fin (3002399751580331 / 4503599627370496)], [Fin 3])"
    by (simp add: epsilon_greedy_update_f64_def Let_def f64_sub_def f64_of_real_m1 f64_of_real_3
        f64_of_real_third f64_of_real_two_thirds)
  show ?thesis by (simp add: s1 s2 s3)
qed




subsection \<open>\<^verbatim>\<open>np.argmax\<close>\<close>

lemma argmax_scan_first_max:
  assumes "i = length pre" and "best < i" and "pre ! best = v"
    and "\<forall>j<i. pre ! j \<le> v" and "\<forall>j<best. pre ! j < v"
  shows "argmax_scan best v i xs < length (pre @ xs) \<and>
         (\<forall>j<length (pre @ xs). (pre @ xs) ! j \<le> (pre @ xs) ! argmax_scan best v i xs) \<and>
         (\<forall>j<argmax_scan best v i xs. (pre @ xs) ! j < (pre @ xs) ! argmax_scan best v i xs)"
  using assms
proof (induction xs arbitrary: best v i pre)
  case Nil
  then show ?case by simp
next
  case (Cons x xs)
  let ?pre = "pre @ [x]"
  have app: "pre @ x # xs = ?pre @ xs" by simp
  show ?case
  proof (cases "v < x")
    case True
    have 1: "Suc i = length ?pre" using Cons.prems(1) by simp
    have 2: "i < Suc i" by simp
    have 3: "?pre ! i = x" using Cons.prems(1) by simp
    have 4: "\<forall>j<Suc i. ?pre ! j \<le> x"
    proof (intro allI impI)
      fix j assume "j < Suc i"
      then show "?pre ! j \<le> x"
        using Cons.prems(1,4) True by (cases "j = i") (auto simp: nth_append less_Suc_eq)
    qed
    have 5: "\<forall>j<i. ?pre ! j < x"
      using Cons.prems(1,4) True by (auto simp: nth_append)
    from Cons.IH[OF 1 2 3 4 5] True show ?thesis unfolding app by simp
  next
    case False
    have 1: "Suc i = length ?pre" using Cons.prems(1) by simp
    have 2: "best < Suc i" using Cons.prems(2) by simp
    have 3: "?pre ! best = v" using Cons.prems(1,2,3) by (simp add: nth_append)
    have 4: "\<forall>j<Suc i. ?pre ! j \<le> v"
    proof (intro allI impI)
      fix j assume "j < Suc i"
      then show "?pre ! j \<le> v"
        using Cons.prems(1,4) False by (cases "j = i") (auto simp: nth_append less_Suc_eq)
    qed
    have 5: "\<forall>j<best. ?pre ! j < v"
      using Cons.prems(1,2,5) by (auto simp: nth_append)
    from Cons.IH[OF 1 2 3 4 5] False show ?thesis unfolding app by simp
  qed
qed

lemma np_argmax_first_max:
  assumes "np_argmax xs = Inr i"
  shows "i < length xs \<and> (\<forall>j<length xs. xs ! j \<le> xs ! i) \<and> (\<forall>j<i. xs ! j < xs ! i)"
proof (cases xs)
  case Nil
  with assms show ?thesis by (simp add: np_argmax_def)
next
  case (Cons x rest)
  with assms have i: "i = argmax_scan 0 x 1 rest" by (simp add: np_argmax_def)
  have "argmax_scan 0 x 1 rest < length ([x] @ rest) \<and>
        (\<forall>j<length ([x] @ rest). ([x] @ rest) ! j \<le> ([x] @ rest) ! argmax_scan 0 x 1 rest) \<and>
        (\<forall>j<argmax_scan 0 x 1 rest. ([x] @ rest) ! j < ([x] @ rest) ! argmax_scan 0 x 1 rest)"
    by (rule argmax_scan_first_max) simp_all
  then show ?thesis using i Cons by simp
qed

lemma np_argmax_nonempty: "xs \<noteq> [] \<Longrightarrow> \<exists>i. np_argmax xs = Inr i"
  by (cases xs) (simp_all add: np_argmax_def)

lemma np_argmax_empty: "np_argmax [] = Inl ValueError"
  by (simp add: np_argmax_def)

lemma np_argmax_single: "np_argmax [x] = Inr 0"
  by (simp add: np_argmax_def)

subsection \<open>Action selection\<close>

lemma epsilon_greedy_select_explore:
  "rng_rand g (rng_pos g) < epsilon \<Longrightarrow> 0 < k \<Longrightarrow>
   epsilon_greedy_select epsilon k Q g = (Inr (rng_randint g (rng_pos g + 1) k), advance (advance g))"
  by (simp add: epsilon_greedy_select_def np_random_rand_def np_random_randint_def)

lemma epsilon_greedy_select_exploit:
  "\<not> rng_rand g (rng_pos g) < epsilon \<Longrightarrow>
   epsilon_greedy_select epsilon k Q g = (np_argmax Q, advance g)"
  by (simp add: epsilon_greedy_select_def np_random_rand_def)

lemma epsilon_greedy_select_in_range:
  assumes "valid_rng g" and "0 < k" and "length Q = k"
  shows "\<exists>a g'. epsilon_greedy_select epsilon k Q g = (Inr a, g') \<and> a < k \<and> valid_rng g'"
proof (cases "rng_rand g (rng_pos g) < epsilon")
  case True
  have "rng_randint g (rng_pos g + 1) k < k"
    using assms(1,2) by (simp add: valid_rng_def)
  with epsilon_greedy_select_explore[OF True assms(2), of Q] assms(1) show ?thesis by simp
next
  case False
  from assms(2,3) have "Q \<noteq> []" by auto
  then obtain i where i: "np_argmax Q = Inr i" using np_argmax_nonempty by blast
  from np_argmax_first_max[OF i] assms(3) have "i < k" by simp
  with epsilon_greedy_select_exploit[OF False, of k Q] i assms(1) show ?thesis by simp
qed

text \<open>
  C2: on every round the selection compares one uniform draw \<open>u \<in> [0, 1)\<close> with
  \<open>epsilon\<close>. If \<open>u < epsilon\<close> (an event of probability \<open>epsilon\<close> for a uniform \<open>u\<close>)
  the action is the next \<^verbatim>\<open>randint(k)\<close> draw, an arm index in \<open>[0, k)\<close>; otherwise it
  is \<^verbatim>\<open>argmax(Q)\<close>, the lowest index among the maxima of \<open>Q\<close>. With \<open>epsilon = 0\<close> the
  \<^verbatim>\<open>argmax\<close> branch is always taken, with \<open>epsilon = 1\<close> the random branch.
\<close>

theorem epsilon_greedy_select_branches:
  assumes "valid_rng g" and "0 < k" and "length Q = k"
  shows "\<exists>u. u = rng_rand g (rng_pos g) \<and> 0 \<le> u \<and> u < 1 \<and>
           (u < epsilon \<longrightarrow>
              (\<exists>a. epsilon_greedy_select epsilon k Q g = (Inr a, advance (advance g)) \<and>
                   a = rng_randint g (rng_pos g + 1) k \<and> a < k)) \<and>
           (\<not> u < epsilon \<longrightarrow>
              (\<exists>a. epsilon_greedy_select epsilon k Q g = (Inr a, advance g) \<and>
                   np_argmax Q = Inr a \<and> a < k \<and>
                   (\<forall>j<k. Q ! j \<le> Q ! a) \<and> (\<forall>j<a. Q ! j < Q ! a))) \<and>
           epsilon_greedy_select 0 k Q g = (np_argmax Q, advance g) \<and>
           epsilon_greedy_select 1 k Q g
             = (Inr (rng_randint g (rng_pos g + 1) k), advance (advance g))"
proof -
  define u where "u = rng_rand g (rng_pos g)"
  have u: "0 \<le> u" "u < 1" using assms(1) by (simp_all add: valid_rng_def u_def)
  have explore: "u < epsilon \<longrightarrow>
              (\<exists>a. epsilon_greedy_select epsilon k Q g = (Inr a, advance (advance g)) \<and>
                   a = rng_randint g (rng_pos g + 1) k \<and> a < k)"
  proof
    assume lt: "u < epsilon"
    have "rng_randint g (rng_pos g + 1) k < k"
      using assms(1,2) by (simp add: valid_rng_def)
    with epsilon_greedy_select_explore[OF lt[unfolded u_def] assms(2), of Q]
    show "\<exists>a. epsilon_greedy_select epsilon k Q g = (Inr a, advance (advance g)) \<and>
                   a = rng_randint g (rng_pos g + 1) k \<and> a < k" by simp
  qed
  have exploit: "\<not> u < epsilon \<longrightarrow>
              (\<exists>a. epsilon_greedy_select epsilon k Q g = (Inr a, advance g) \<and>
                   np_argmax Q = Inr a \<and> a < k \<and>
                   (\<forall>j<k. Q ! j \<le> Q ! a) \<and> (\<forall>j<a. Q ! j < Q ! a))"
  proof
    assume ge: "\<not> u < epsilon"
    from assms(2,3) have "Q \<noteq> []" by auto
    then obtain i where i: "np_argmax Q = Inr i" using np_argmax_nonempty by blast
    from np_argmax_first_max[OF i] assms(3)
    have "i < k" "\<forall>j<k. Q ! j \<le> Q ! i" "\<forall>j<i. Q ! j < Q ! i" by simp_all
    with epsilon_greedy_select_exploit[OF ge[unfolded u_def], of k Q] i
    show "\<exists>a. epsilon_greedy_select epsilon k Q g = (Inr a, advance g) \<and>
                   np_argmax Q = Inr a \<and> a < k \<and>
                   (\<forall>j<k. Q ! j \<le> Q ! a) \<and> (\<forall>j<a. Q ! j < Q ! a)" by simp
  qed
  have zero: "epsilon_greedy_select 0 k Q g = (np_argmax Q, advance g)"
    using epsilon_greedy_select_exploit[of g 0 k Q] u by (simp add: u_def)
  have one: "epsilon_greedy_select 1 k Q g
             = (Inr (rng_randint g (rng_pos g + 1) k), advance (advance g))"
    using epsilon_greedy_select_explore[of g 1 k Q] u assms(2) by (simp add: u_def)
  show ?thesis
    apply (rule exI[of _ u])
    using u explore exploit zero one by (simp add: u_def)
qed

theorem epsilon_greedy_select_branches_witness:
  "valid_rng (const_rng (1/2) 2) \<and> (0::nat) < 3 \<and> length [3/10, 7/10, 7/10 :: real] = 3 \<and>
   epsilon_greedy_select (1/10) 3 [3/10, 7/10, 7/10] (const_rng (1/2) 2)
     = (Inr 1, advance (const_rng (1/2) 2)) \<and>
   epsilon_greedy_select (9/10) 3 [3/10, 7/10, 7/10] (const_rng (1/2) 2)
     = (Inr 2, advance (advance (const_rng (1/2) 2)))"
proof -
  have v: "valid_rng (const_rng (1/2) 2)" by (simp add: valid_const_rng)
  have k: "(0::nat) < 3" by simp
  have l: "length [3/10, 7/10, 7/10 :: real] = 3" by simp
  have a: "np_argmax [3/10, 7/10, 7/10 :: real] = Inr 1" by (simp add: np_argmax_def)
  from epsilon_greedy_select_branches[OF v k l, of "1/10"]
  have 1: "epsilon_greedy_select (1/10) 3 [3/10, 7/10, 7/10] (const_rng (1/2) 2)
     = (Inr 1, advance (const_rng (1/2) 2))"
    using a by (auto simp: const_rng_def)
  from epsilon_greedy_select_branches[OF v k l, of "9/10"]
  have 2: "epsilon_greedy_select (9/10) 3 [3/10, 7/10, 7/10] (const_rng (1/2) 2)
     = (Inr 2, advance (advance (const_rng (1/2) 2)))"
    by (auto simp: const_rng_def)
  from v k l 1 2 show ?thesis by simp
qed

subsection \<open>Rounds and runs of \<^verbatim>\<open>epsilon_greedy\<close>\<close>

lemma sum_list_increment:
  fixes xs :: "real list"
  shows "a < length xs \<Longrightarrow> sum_list (xs[a := xs ! a + c]) = sum_list xs + c"
  by (induction xs arbitrary: a) (auto split: nat.splits)

text \<open>What a round that does not raise has done.\<close>

lemma epsilon_greedy_round_Inr:
  assumes "epsilon_greedy_round bandit k epsilon st g = (Inr st', g')"
  shows "\<exists>a r g1. epsilon_greedy_select epsilon k (eg_Q st) g = (Inr a, g1) \<and>
           BernoulliBandit_step bandit (int a) g1 = (Inr r, g') \<and> (r = 0 \<or> r = 1) \<and>
           epsilon_greedy_update (eg_Q st, eg_N st) (a, real_of_int r) = Inr (eg_Q st', eg_N st') \<and>
           eg_rewards st' = eg_rewards st @ [r] \<and>
           eg_actions st' = eg_actions st @ [a]"
proof -
  obtain sel g1 where sel: "epsilon_greedy_select epsilon k (eg_Q st) g = (sel, g1)"
    by (cases "epsilon_greedy_select epsilon k (eg_Q st) g")
  with assms obtain a where a: "sel = Inr a"
    by (cases sel) (simp_all add: epsilon_greedy_round_def)
  obtain res g2 where step: "BernoulliBandit_step bandit (int a) g1 = (res, g2)"
    by (cases "BernoulliBandit_step bandit (int a) g1")
  with assms sel a obtain r where r: "res = Inr r"
    by (cases res) (simp_all add: epsilon_greedy_round_def)
  have r01: "r = 0 \<or> r = 1" using BernoulliBandit_step_reward step r by blast
  obtain upd where upd: "epsilon_greedy_update (eg_Q st, eg_N st) (a, real_of_int r) = upd"
    by simp
  with assms sel a step r obtain Q' N' where u: "upd = Inr (Q', N')"
    by (cases upd) (auto simp: epsilon_greedy_round_def)
  from assms sel a step r upd u
  have "st' = \<lparr>eg_Q = Q', eg_N = N', eg_rewards = eg_rewards st @ [r],
               eg_actions = eg_actions st @ [a]\<rparr>" and "g' = g2"
    by (simp_all add: epsilon_greedy_round_def)
  with sel a step r r01 upd u show ?thesis by simp
qed

text \<open>A round on a bandit with \<open>k \<ge> 1\<close> arms and a valid generator does not raise.\<close>

lemma epsilon_greedy_round_succeeds:
  assumes "valid_rng g" and "0 < k" and "length (bb_p bandit) = k"
    and "length (eg_Q st) = k" and "length (eg_N st) = k"
  shows "\<exists>st' g'. epsilon_greedy_round bandit k epsilon st g = (Inr st', g') \<and> valid_rng g'"
proof -
  from epsilon_greedy_select_in_range[OF assms(1,2,4)]
  obtain a g1 where sel: "epsilon_greedy_select epsilon k (eg_Q st) g = (Inr a, g1)"
    and a: "a < k" and v1: "valid_rng g1" by blast
  have "0 \<le> int a" "int a < int (length (bb_p bandit))" using a assms(3) by simp_all
  from BernoulliBandit_step_inside[OF this, of g1]
  obtain r where step: "BernoulliBandit_step bandit (int a) g1 = (Inr r, advance g1)" by simp
  have "a < length (eg_N st)" "a < length (eg_Q st)" using a assms(4,5) by simp_all
  from epsilon_greedy_update_succeeds[OF this]
  obtain Q' N' where u: "epsilon_greedy_update (eg_Q st, eg_N st) (a, real_of_int r) = Inr (Q', N')"
    by simp
  show ?thesis using sel step u v1 by (simp add: epsilon_greedy_round_def)
qed

lemma epsilon_greedy_update_lengths:
  assumes "epsilon_greedy_update (Q, N) ar = Inr (Q', N')"
  shows "length Q' = length Q" and "length N' = length N"
  using assms by (auto simp: epsilon_greedy_update_def Let_def split: if_splits prod.splits)

lemma epsilon_greedy_update_sum:
  assumes "epsilon_greedy_update (Q, N) ar = Inr (Q', N')"
  shows "sum_list N' = sum_list N + 1"
proof -
  obtain a r where ar: "ar = (a, r)" by (cases ar)
  from epsilon_greedy_update_Inr[OF assms[unfolded ar]] show ?thesis
    by (simp add: sum_list_increment)
qed

lemma eg_inv_init: "eg_inv k (eg_init k)"
  by (simp add: eg_inv_def eg_init_def)

lemma unit_interval_step:
  fixes q n r :: real
  assumes "0 \<le> q" "q \<le> 1" "0 \<le> n" "0 \<le> r" "r \<le> 1"
  shows "0 \<le> q + (r - q) / (n + 1) \<and> q + (r - q) / (n + 1) \<le> 1"
proof -
  have pos: "0 < n + 1" using assms(3) by linarith
  have eq: "q + (r - q) / (n + 1) = (q * n + r) / (n + 1)"
    using pos by (simp add: field_simps)
  have "0 \<le> q * n" using assms(1,3) by simp
  then have lo: "0 \<le> q * n + r" using assms(4) by linarith
  have "q * n \<le> 1 * n" using assms(2,3) by (rule mult_right_mono)
  then have hi: "q * n + r \<le> n + 1" using assms(5) by linarith
  show ?thesis unfolding eq using lo hi pos by (simp add: field_simps)
qed

lemma epsilon_greedy_round_inv:
  assumes "eg_inv k st" and "epsilon_greedy_round bandit k epsilon st g = (Inr st', g')"
  shows "eg_inv k st'"
proof -
  from epsilon_greedy_round_Inr[OF assms(2)] obtain a r where
    r01: "r = 0 \<or> r = 1" and
    u: "epsilon_greedy_update (eg_Q st, eg_N st) (a, real_of_int r) = Inr (eg_Q st', eg_N st')" and
    rew: "eg_rewards st' = eg_rewards st @ [r]" and
    act: "eg_actions st' = eg_actions st @ [a]"
    by blast
  note U = epsilon_greedy_update_Inr[OF u]
  have len: "length (eg_Q st) = k" "length (eg_N st) = k"
    using assms(1) by (simp_all add: eg_inv_def)
  have a: "a < k" using U(1) len by simp
  have "0 \<le> eg_Q st' ! i \<and> eg_Q st' ! i \<le> 1 \<and>
        eg_N st' ! i = real (count_list (eg_actions st') i) \<and>
        (i \<notin> set (eg_actions st') \<longrightarrow> eg_Q st' ! i = 0)" if i: "i < k" for i
  proof -
    from assms(1) i have old: "0 \<le> eg_Q st ! i" "eg_Q st ! i \<le> 1"
      "eg_N st ! i = real (count_list (eg_actions st) i)"
      "i \<notin> set (eg_actions st) \<longrightarrow> eg_Q st ! i = 0"
      by (simp_all add: eg_inv_def)
    show ?thesis
    proof (cases "i = a")
      case True
      have n0: "0 \<le> eg_N st ! a" using old(3) True by simp
      have r: "0 \<le> real_of_int r" "real_of_int r \<le> 1" using r01 by auto
      have q': "eg_Q st' ! a = eg_Q st ! a + (real_of_int r - eg_Q st ! a) / (eg_N st ! a + 1)"
        using U(4) a len by simp
      have n': "eg_N st' ! a = eg_N st ! a + 1" using U(3) a len by simp
      from unit_interval_step[OF old(1,2)[unfolded True] n0 r] q' n' old(3) True act
      show ?thesis by simp
    next
      case False
      have "eg_Q st' ! i = eg_Q st ! i" "eg_N st' ! i = eg_N st ! i"
        using U(3,4) False by simp_all
      with old False act show ?thesis by simp
    qed
  qed
  moreover have "length (eg_Q st') = k" "length (eg_N st') = k"
    using U(3,4) len by simp_all
  moreover have "length (eg_rewards st') = length (eg_actions st')"
    using assms(1) rew act by (simp add: eg_inv_def)
  moreover have "\<forall>b \<in> set (eg_actions st'). b < k"
    using assms(1) act a by (auto simp: eg_inv_def)
  ultimately show ?thesis by (simp add: eg_inv_def)
qed

lemma epsilon_greedy_loop_inv:
  assumes "eg_inv k st" and "epsilon_greedy_loop bandit k epsilon n st g = (Inr st', g')"
  shows "eg_inv k st' \<and> length (eg_rewards st') = length (eg_rewards st) + n \<and>
         sum_list (eg_N st') = sum_list (eg_N st) + real n"
  using assms
proof (induction n arbitrary: st g)
  case 0
  then show ?case by simp
next
  case (Suc n)
  from Suc.prems(2) obtain st1 g1 where
    r: "epsilon_greedy_round bandit k epsilon st g = (Inr st1, g1)" and
    l: "epsilon_greedy_loop bandit k epsilon n st1 g1 = (Inr st', g')"
    by (auto split: prod.splits sum.splits)
  from epsilon_greedy_round_inv[OF Suc.prems(1) r] have inv1: "eg_inv k st1" .
  from epsilon_greedy_round_Inr[OF r] obtain a rr where
    u: "epsilon_greedy_update (eg_Q st, eg_N st) (a, real_of_int rr) = Inr (eg_Q st1, eg_N st1)" and
    rew: "eg_rewards st1 = eg_rewards st @ [rr]"
    by blast
  from Suc.IH[OF inv1 l] epsilon_greedy_update_sum[OF u] rew show ?case by simp
qed

lemma epsilon_greedy_loop_succeeds:
  assumes "valid_rng g" and "0 < k" and "length (bb_p bandit) = k" and "eg_inv k st"
  shows "\<exists>st' g'. epsilon_greedy_loop bandit k epsilon n st g = (Inr st', g')"
  using assms(1,4)
proof (induction n arbitrary: st g)
  case 0
  then show ?case by simp
next
  case (Suc n)
  have len: "length (eg_Q st) = k" "length (eg_N st) = k"
    using Suc.prems(2) by (simp_all add: eg_inv_def)
  from epsilon_greedy_round_succeeds[OF Suc.prems(1) assms(2,3) len]
  obtain st1 g1 where r: "epsilon_greedy_round bandit k epsilon st g = (Inr st1, g1)"
    and v1: "valid_rng g1" by blast
  from Suc.IH[OF v1 epsilon_greedy_round_inv[OF Suc.prems(2) r]] r show ?case by simp
qed

text \<open>
  A run is such a sequence of updates: the estimates that \<^verbatim>\<open>epsilon_greedy\<close> returns are
  those of the updates with the arms it pulled and the rewards it recorded, in order.
\<close>

lemma epsilon_greedy_loop_updates:
  assumes "epsilon_greedy_loop bandit k epsilon n st g = (Inr st', g')"
  shows "\<exists>acts rews. length acts = n \<and> length rews = n \<and>
           eg_actions st' = eg_actions st @ acts \<and> eg_rewards st' = eg_rewards st @ rews \<and>
           epsilon_greedy_updates (eg_Q st, eg_N st) (zip acts (map real_of_int rews))
             = Inr (eg_Q st', eg_N st')"
  using assms
proof (induction n arbitrary: st g)
  case 0
  then show ?case by simp
next
  case (Suc n)
  from Suc.prems obtain st1 g1 where
    r: "epsilon_greedy_round bandit k epsilon st g = (Inr st1, g1)" and
    l: "epsilon_greedy_loop bandit k epsilon n st1 g1 = (Inr st', g')"
    by (auto split: prod.splits sum.splits)
  from epsilon_greedy_round_Inr[OF r] obtain a rr where
    u: "epsilon_greedy_update (eg_Q st, eg_N st) (a, real_of_int rr) = Inr (eg_Q st1, eg_N st1)" and
    rew: "eg_rewards st1 = eg_rewards st @ [rr]" and
    act: "eg_actions st1 = eg_actions st @ [a]"
    by blast
  from Suc.IH[OF l] obtain acts rews where
    len: "length acts = n" "length rews = n" and
    a': "eg_actions st' = eg_actions st1 @ acts" and
    r': "eg_rewards st' = eg_rewards st1 @ rews" and
    us: "epsilon_greedy_updates (eg_Q st1, eg_N st1) (zip acts (map real_of_int rews))
           = Inr (eg_Q st', eg_N st')"
    by blast
  show ?case
    apply (rule exI[of _ "a # acts"], rule exI[of _ "rr # rews"])
    using len a' r' us u rew act by simp
qed

lemma epsilon_greedy_run_updates:
  assumes "epsilon_greedy_run bandit num_steps epsilon g = (Inr st, g')"
  shows "epsilon_greedy_updates (replicate (bb_k bandit) 0, replicate (bb_k bandit) 0)
           (zip (eg_actions st) (map real_of_int (eg_rewards st))) = Inr (eg_Q st, eg_N st)"
  using epsilon_greedy_loop_updates[OF assms[unfolded epsilon_greedy_run_def]]
  by (auto simp: eg_init_def)

subsection \<open>Rounds and runs of \<^verbatim>\<open>run_thompson_search\<close>\<close>

lemma SearchBandit_step_counter:
  assumes "SearchBandit_step env a c g = (Inr ((r, d), env'), g')"
  shows "sb_current_step env' = sb_current_step env + 1"
    and "sb_num_queries env' = sb_num_queries env"
    and "d = (sb_current_step env' \<ge> sb_num_queries env')"
  using assms
  by (auto simp: SearchBandit_step_def Let_def np_random_rand_def
           split: sum.splits prod.splits if_splits)

lemma thompson_round_counter:
  assumes "thompson_round env st g = (Inr (d, env', st'), g')"
  shows "sb_current_step env' = sb_current_step env + 1"
    and "sb_num_queries env' = sb_num_queries env"
    and "d = (sb_current_step env' \<ge> sb_num_queries env')"
  using assms SearchBandit_step_counter
  unfolding thompson_round_def
  by (auto simp: Let_def split: sum.splits prod.splits if_splits)

lemma thompson_update_Inr:
  assumes "thompson_update (al, be) (a, r) = Inr (al', be')"
  shows "r = 1 \<longrightarrow> a < length al \<and> al' = al[a := al ! a + 1] \<and> be' = be"
    and "r \<noteq> 1 \<longrightarrow> a < length be \<and> be' = be[a := be ! a + 1] \<and> al' = al"
  using assms by (auto simp: thompson_update_def Let_def split: if_splits)

lemma thompson_update_succeeds:
  "a < length al \<Longrightarrow> a < length be \<Longrightarrow> \<exists>al' be'. thompson_update (al, be) (a, r) = Inr (al', be')"
  by (simp add: thompson_update_def Let_def)

lemma sum_list_replicate_one: "sum_list (replicate k (1::real)) = real k"
  by (induction k) simp_all

lemma ts_inv_init: "ts_inv k (ts_init k)"
  by (simp add: ts_inv_def ts_init_def sum_list_replicate_one)

lemma thompson_round_Inr:
  assumes "thompson_round env st g = (Inr (d, env', st'), g')"
  shows "\<exists>a r.
           np_argmax (rng_beta g (rng_pos g + 1) (ts_alpha st) (ts_beta st)) = Inr a \<and>
           SearchBandit_step env (int a) (rng_randn g (rng_pos g) (sb_context_dim env))
               (advance (advance g)) = (Inr ((r, d), env'), g') \<and>
           thompson_update (ts_alpha st, ts_beta st) (a, r) = Inr (ts_alpha st', ts_beta st') \<and>
           ts_rewards st' = ts_rewards st @ [r] \<and>
           ts_actions st' = ts_actions st @ [a]"
  using assms
  unfolding thompson_round_def SearchBandit_get_context_def np_random_randn_def np_random_beta_def
  by (auto simp: Let_def split: sum.splits prod.splits)

lemma thompson_round_inv:
  assumes "ts_inv k st" and "thompson_round env st g = (Inr (d, env', st'), g')"
  shows "ts_inv k st'"
proof -
  from thompson_round_Inr[OF assms(2)] obtain a r where
    u: "thompson_update (ts_alpha st, ts_beta st) (a, r) = Inr (ts_alpha st', ts_beta st')" and
    rew: "ts_rewards st' = ts_rewards st @ [r]" and
    act: "ts_actions st' = ts_actions st @ [a]"
    by blast
  note U = thompson_update_Inr[OF u]
  have len: "length (ts_alpha st) = k" "length (ts_beta st) = k"
    using assms(1) by (simp_all add: ts_inv_def)
  have a: "a < k" using U len by (cases "r = 1") simp_all
  have len': "length (ts_alpha st') = k" "length (ts_beta st') = k"
    using U len by (cases "r = 1"; simp)+
  have sum: "sum_list (ts_alpha st') + sum_list (ts_beta st')
               = sum_list (ts_alpha st) + sum_list (ts_beta st) + 1"
    using U a len by (cases "r = 1") (simp_all add: sum_list_increment)
  have pt: "ts_alpha st' ! i + ts_beta st' ! i = 2 + real (count_list (ts_actions st') i)"
    if i: "i < k" for i
  proof -
    from assms(1) i
    have old: "ts_alpha st ! i + ts_beta st ! i = 2 + real (count_list (ts_actions st) i)"
      by (simp add: ts_inv_def)
    show ?thesis
    proof (cases "i = a")
      case True
      have "ts_alpha st' ! a + ts_beta st' ! a = ts_alpha st ! a + ts_beta st ! a + 1"
        using U a len by (cases "r = 1") simp_all
      with old True act show ?thesis by simp
    next
      case False
      have "ts_alpha st' ! i = ts_alpha st ! i" "ts_beta st' ! i = ts_beta st ! i"
        using U False by (cases "r = 1"; simp)+
      with old False act show ?thesis by simp
    qed
  qed
  have "length (ts_rewards st') = length (ts_actions st')"
    using assms(1) rew act by (simp add: ts_inv_def)
  moreover have "\<forall>b \<in> set (ts_actions st'). b < k"
    using assms(1) act a by (auto simp: ts_inv_def)
  moreover have "sum_list (ts_alpha st') + sum_list (ts_beta st')
                   = 2 * real k + real (length (ts_actions st'))"
    using sum assms(1) act by (simp add: ts_inv_def)
  ultimately show ?thesis using len' pt by (simp add: ts_inv_def)
qed

lemma thompson_loop_inv:
  assumes "ts_inv k st" and "thompson_loop env st g = (Inr (env', st'), g')"
  shows "ts_inv k st' \<and>
         int (length (ts_rewards st')) =
           int (length (ts_rewards st)) + max 1 (sb_num_queries env - sb_current_step env) \<and>
         sb_current_step env' =
           sb_current_step env + max 1 (sb_num_queries env - sb_current_step env) \<and>
         sb_num_queries env' = sb_num_queries env"
  using assms
proof (induction env st g rule: thompson_loop.induct)
  case (1 env st g)
  from "1.prems"(2) obtain d env1 st1 g1 where
    r: "thompson_round env st g = (Inr (d, env1, st1), g1)"
    by (subst (asm) thompson_loop.simps) (auto split: prod.splits sum.splits)
  note C = thompson_round_counter[OF r]
  have inv1: "ts_inv k st1" using thompson_round_inv[OF "1.prems"(1) r] .
  from thompson_round_Inr[OF r] obtain rr where rew: "ts_rewards st1 = ts_rewards st @ [rr]"
    by blast
  show ?case
  proof (cases d)
    case True
    with "1.prems"(2) r have "env' = env1" "st' = st1"
      by (subst (asm) thompson_loop.simps, simp)+
    with inv1 rew C True show ?thesis by simp
  next
    case False
    with "1.prems"(2) r have l: "thompson_loop env1 st1 g1 = (Inr (env', st'), g')"
      by (subst (asm) thompson_loop.simps) simp
    from "1.IH"[OF r[symmetric] refl refl refl False inv1 l] rew C False
    show ?thesis by simp
  qed
qed

lemma SearchBandit_step_succeeds:
  assumes "0 \<le> a" and "a < int (length (sb_strategy_weights env))"
    and "length (sb_strategy_weights env ! nat a) = length c"
  shows "\<exists>r. SearchBandit_step env a c g =
           (Inr ((r, sb_current_step env + 1 \<ge> sb_num_queries env),
                 env\<lparr>sb_current_step := sb_current_step env + 1\<rparr>), advance g)"
  using assms
  by (simp add: SearchBandit_step_def np_getitem_def np_position_inside np_dot_def
        np_random_rand_def Let_def)

lemma thompson_round_succeeds:
  assumes "valid_rng g" and "SearchBandit_wf env" and "ts_inv (sb_k env) st"
  shows "\<exists>d st' g'. thompson_round env st g
           = (Inr (d, env\<lparr>sb_current_step := sb_current_step env + 1\<rparr>, st'), g') \<and> valid_rng g'"
proof -
  let ?c = "rng_randn g (rng_pos g) (sb_context_dim env)"
  let ?q = "rng_beta g (rng_pos g + 1) (ts_alpha st) (ts_beta st)"
  have k: "sb_k env = length (sb_strategy_weights env)" "0 < sb_k env"
    using assms(2) by (auto simp: SearchBandit_wf_def)
  have lc: "length ?c = sb_context_dim env" using assms(1) by (simp add: valid_rng_def)
  have lq: "length ?q = sb_k env" using assms(1,3) by (simp add: valid_rng_def ts_inv_def)
  then have "?q \<noteq> []" using k by auto
  then obtain a where am: "np_argmax ?q = Inr a" using np_argmax_nonempty by blast
  from np_argmax_first_max[OF am] lq have a: "a < sb_k env" by simp
  have w: "length (sb_strategy_weights env ! nat (int a)) = length ?c"
    using assms(2) a k lc by (simp add: SearchBandit_wf_def)
  have "0 \<le> int a" "int a < int (length (sb_strategy_weights env))" using a k by simp_all
  from SearchBandit_step_succeeds[OF this w, of "advance (advance g)"]
  obtain r where step: "SearchBandit_step env (int a) ?c (advance (advance g)) =
           (Inr ((r, sb_current_step env + 1 \<ge> sb_num_queries env),
                 env\<lparr>sb_current_step := sb_current_step env + 1\<rparr>), advance (advance (advance g)))"
    by blast
  have "a < length (ts_alpha st)" "a < length (ts_beta st)"
    using a assms(3) by (simp_all add: ts_inv_def)
  from thompson_update_succeeds[OF this, of r]
  obtain al' be' where u: "thompson_update (ts_alpha st, ts_beta st) (a, r) = Inr (al', be')"
    by blast
  show ?thesis
    using am step u assms(1)
    by (simp add: thompson_round_def SearchBandit_get_context_def np_random_randn_def
          np_random_beta_def Let_def)
qed

lemma thompson_loop_succeeds:
  assumes "valid_rng g" and "SearchBandit_wf env" and "ts_inv (sb_k env) st"
  shows "\<exists>env' st' g'. thompson_loop env st g = (Inr (env', st'), g')"
  using assms
proof (induction env st g rule: thompson_loop.induct)
  case (1 env st g)
  from thompson_round_succeeds[OF "1.prems"]
  obtain d st1 g1 where
    r: "thompson_round env st g
          = (Inr (d, env\<lparr>sb_current_step := sb_current_step env + 1\<rparr>, st1), g1)"
    and v1: "valid_rng g1" by blast
  let ?env1 = "env\<lparr>sb_current_step := sb_current_step env + 1\<rparr>"
  have wf1: "SearchBandit_wf ?env1" using "1.prems"(2) by (auto simp: SearchBandit_wf_def)
  have inv1: "ts_inv (sb_k ?env1) st1" using thompson_round_inv[OF "1.prems"(3) r] by simp
  show ?case
  proof (cases d)
    case True
    with r show ?thesis by (subst thompson_loop.simps) simp
  next
    case False
    from "1.IH"[OF r[symmetric] refl refl refl False v1 wf1 inv1]
    obtain env' st' g' where "thompson_loop ?env1 st1 g1 = (Inr (env', st'), g')" by blast
    with r False show ?thesis by (subst thompson_loop.simps) simp
  qed
qed

lemma SearchBandit_init_wf:
  "ws \<noteq> [] \<Longrightarrow> \<forall>w \<in> set ws. length w = d \<Longrightarrow> SearchBandit_wf (SearchBandit_init ws d nq)"
  by (simp add: SearchBandit_wf_def SearchBandit_init_def)

subsection \<open>Two runs, round by round\<close>

lemma epsilon_greedy_run_example:
  "epsilon_greedy_run (BernoulliBandit_init [1/10, 3/10, 8/10]) 3 (1/10) mod_rng
   = (Inr \<lparr>eg_Q = [1/2, 0, 0], eg_N = [2, 1, 0], eg_rewards = [0, 1, 0], eg_actions = [1, 0, 0]\<rparr>,
      mod_rng\<lparr>rng_pos := 7\<rparr>)"
proof -
  let ?b = "BernoulliBandit_init [1/10, 3/10, 8/10]"
  have sel1: "epsilon_greedy_select (1/10) 3 [0, 0, 0] mod_rng = (Inr 1, mod_rng\<lparr>rng_pos := 2\<rparr>)"
    by (simp add: epsilon_greedy_select_def np_random_rand_def np_random_randint_def
          mod_rng_def advance_def)
  have step1: "BernoulliBandit_step ?b 1 (mod_rng\<lparr>rng_pos := 2\<rparr>) = (Inr 0, mod_rng\<lparr>rng_pos := 3\<rparr>)"
    by (simp add: BernoulliBandit_step_def BernoulliBandit_init_def np_random_rand_def
          np_getitem_def np_position_def mod_rng_def advance_def)
  have upd1: "epsilon_greedy_update ([0, 0, 0], [0, 0, 0]) (1, 0) = Inr ([0, 0, 0], [0, 1, 0])"
    by (simp add: epsilon_greedy_update_def Let_def)
  have r1: "epsilon_greedy_round ?b 3 (1/10) (eg_init 3) mod_rng
     = (Inr \<lparr>eg_Q = [0, 0, 0], eg_N = [0, 1, 0], eg_rewards = [0], eg_actions = [1]\<rparr>,
        mod_rng\<lparr>rng_pos := 3\<rparr>)"
    using sel1 step1 upd1 by (simp add: epsilon_greedy_round_def eg_init_def numeral_3_eq_3)
  have sel2: "epsilon_greedy_select (1/10) 3 [0, 0, 0] (mod_rng\<lparr>rng_pos := 3\<rparr>)
                = (Inr 0, mod_rng\<lparr>rng_pos := 4\<rparr>)"
    by (simp add: epsilon_greedy_select_def np_random_rand_def np_argmax_def
          mod_rng_def advance_def)
  have step2: "BernoulliBandit_step ?b 0 (mod_rng\<lparr>rng_pos := 4\<rparr>) = (Inr 1, mod_rng\<lparr>rng_pos := 5\<rparr>)"
    by (simp add: BernoulliBandit_step_def BernoulliBandit_init_def np_random_rand_def
          np_getitem_def np_position_def mod_rng_def advance_def)
  have upd2: "epsilon_greedy_update ([0, 0, 0], [0, 1, 0]) (0, 1) = Inr ([1, 0, 0], [1, 1, 0])"
    by (simp add: epsilon_greedy_update_def Let_def)
  have r2: "epsilon_greedy_round ?b 3 (1/10)
       \<lparr>eg_Q = [0, 0, 0], eg_N = [0, 1, 0], eg_rewards = [0], eg_actions = [1]\<rparr>
       (mod_rng\<lparr>rng_pos := 3\<rparr>)
     = (Inr \<lparr>eg_Q = [1, 0, 0], eg_N = [1, 1, 0], eg_rewards = [0, 1], eg_actions = [1, 0]\<rparr>,
        mod_rng\<lparr>rng_pos := 5\<rparr>)"
    using sel2 step2 upd2 by (simp add: epsilon_greedy_round_def)
  have sel3: "epsilon_greedy_select (1/10) 3 [1, 0, 0] (mod_rng\<lparr>rng_pos := 5\<rparr>)
                = (Inr 0, mod_rng\<lparr>rng_pos := 6\<rparr>)"
    by (simp add: epsilon_greedy_select_def np_random_rand_def np_argmax_def
          mod_rng_def advance_def)
  have step3: "BernoulliBandit_step ?b 0 (mod_rng\<lparr>rng_pos := 6\<rparr>) = (Inr 0, mod_rng\<lparr>rng_pos := 7\<rparr>)"
    by (simp add: BernoulliBandit_step_def BernoulliBandit_init_def np_random_rand_def
          np_getitem_def np_position_def mod_rng_def advance_def)
  have upd3: "epsilon_greedy_update ([1, 0, 0], [1, 1, 0]) (0, 0) = Inr ([1/2, 0, 0], [2, 1, 0])"
    by (simp add: epsilon_greedy_update_def Let_def)
  have r3: "epsilon_greedy_round ?b 3 (1/10)
       \<lparr>eg_Q = [1, 0, 0], eg_N = [1, 1, 0], eg_rewards = [0, 1], eg_actions = [1, 0]\<rparr>
       (mod_rng\<lparr>rng_pos := 5\<rparr>)
     = (Inr \<lparr>eg_Q = [1/2, 0, 0], eg_N = [2, 1, 0], eg_rewards = [0, 1, 0], eg_actions = [1, 0, 0]\<rparr>,
        mod_rng\<lparr>rng_pos := 7\<rparr>)"
    using sel3 step3 upd3 by (simp add: epsilon_greedy_round_def)
  have k: "bb_k ?b = 3" by (simp add: BernoulliBandit_init_def)
  show ?thesis
    unfolding epsilon_greedy_run_def k
    using r1 r2 r3 by (simp add: numeral_3_eq_3)
qed


lemma run_thompson_search_example:
  "run_thompson_search_run (SearchBandit_init [[1, 1], [-1/2, 2], [2, -1/5]] 2 3) mod_rng
   = (Inr (\<lparr>sb_strategy_weights = [[1, 1], [-1/2, 2], [2, -1/5]], sb_k = 3, sb_context_dim = 2,
             sb_num_queries = 3, sb_current_step = 3\<rparr>,
           \<lparr>ts_alpha = [2, 2, 1], ts_beta = [1, 1, 2], ts_rewards = [0, 1, 1],
            ts_actions = [2, 0, 1]\<rparr>),
      mod_rng\<lparr>rng_pos := 9\<rparr>)"
proof -
  let ?w = "[[1, 1], [-1/2, 2], [2, -1/5]] :: real list list"
  let ?env = "\<lambda>n. \<lparr>sb_strategy_weights = ?w, sb_k = 3, sb_context_dim = 2,
                     sb_num_queries = 3, sb_current_step = n\<rparr>"
  have init: "SearchBandit_init ?w 2 3 = ?env 0" by (simp add: SearchBandit_init_def)
  have ctx: "SearchBandit_get_context (?env n) (mod_rng\<lparr>rng_pos := i\<rparr>)
               = ([0, 0], mod_rng\<lparr>rng_pos := i + 1\<rparr>)" for n i
    by (simp add: SearchBandit_get_context_def np_random_randn_def mod_rng_def advance_def
          numeral_2_eq_2)
  have step: "SearchBandit_step (?env n) (int a) [0, 0] (mod_rng\<lparr>rng_pos := i\<rparr>)
                = (Inr ((if real (i mod 4) / 4 < 1 / 2 then 1 else 0, 3 \<le> n + 1), ?env (n + 1)),
                   mod_rng\<lparr>rng_pos := i + 1\<rparr>)" if "a < 3" for n a i
  proof -
    from that have "a = 0 \<or> a = 1 \<or> a = 2" by auto
    then show ?thesis
      by (auto simp: SearchBandit_step_def np_getitem_def np_position_def np_dot_def
            np_random_rand_def mod_rng_def advance_def Let_def)
  qed
  have b1: "np_random_beta [1, 1, 1] [1, 1, 1] (mod_rng\<lparr>rng_pos := 1\<rparr>)
              = ([2/6, 3/6, 4/6], mod_rng\<lparr>rng_pos := 2\<rparr>)"
    by (simp add: np_random_beta_def mod_rng_def advance_def)
  have b2: "np_random_beta [1, 1, 1] [1, 1, 2] (mod_rng\<lparr>rng_pos := 4\<rparr>)
              = ([5/6, 4/6, 3/6], mod_rng\<lparr>rng_pos := 5\<rparr>)"
    by (simp add: np_random_beta_def mod_rng_def advance_def)
  have b3: "np_random_beta [2, 1, 1] [1, 1, 2] (mod_rng\<lparr>rng_pos := 7\<rparr>)
              = ([3/6, 5/6, 2/6], mod_rng\<lparr>rng_pos := 8\<rparr>)"
    by (simp add: np_random_beta_def mod_rng_def advance_def)
  have a1: "np_argmax [2/6, 3/6, 4/6] = Inr 2" by (simp add: np_argmax_def)
  have a2: "np_argmax [5/6, 4/6, 3/6] = Inr 0" by (simp add: np_argmax_def)
  have a3: "np_argmax [3/6, 5/6, 2/6] = Inr 1" by (simp add: np_argmax_def)
  have r1: "thompson_round (?env 0) (ts_init 3) mod_rng
     = (Inr (False, ?env 1,
             \<lparr>ts_alpha = [1, 1, 1], ts_beta = [1, 1, 2], ts_rewards = [0], ts_actions = [2]\<rparr>),
        mod_rng\<lparr>rng_pos := 3\<rparr>)"
    using ctx[of 0 0] b1 a1 step[of 2 0 2]
    by (simp add: thompson_round_def ts_init_def thompson_update_def numeral_3_eq_3 mod_rng_def)
  have r2: "thompson_round (?env 1)
       \<lparr>ts_alpha = [1, 1, 1], ts_beta = [1, 1, 2], ts_rewards = [0], ts_actions = [2]\<rparr>
       (mod_rng\<lparr>rng_pos := 3\<rparr>)
     = (Inr (False, ?env 2,
             \<lparr>ts_alpha = [2, 1, 1], ts_beta = [1, 1, 2], ts_rewards = [0, 1], ts_actions = [2, 0]\<rparr>),
        mod_rng\<lparr>rng_pos := 6\<rparr>)"
    using ctx[of 1 3] b2 a2 step[of 0 1 5]
    by (simp add: thompson_round_def thompson_update_def)
  have r3: "thompson_round (?env 2)
       \<lparr>ts_alpha = [2, 1, 1], ts_beta = [1, 1, 2], ts_rewards = [0, 1], ts_actions = [2, 0]\<rparr>
       (mod_rng\<lparr>rng_pos := 6\<rparr>)
     = (Inr (True, ?env 3,
             \<lparr>ts_alpha = [2, 2, 1], ts_beta = [1, 1, 2], ts_rewards = [0, 1, 1],
              ts_actions = [2, 0, 1]\<rparr>),
        mod_rng\<lparr>rng_pos := 9\<rparr>)"
    using ctx[of 2 6] b3 a3 step[of 1 2 8]
    by (simp add: thompson_round_def thompson_update_def)
  have l3: "thompson_loop (?env 2)
       \<lparr>ts_alpha = [2, 1, 1], ts_beta = [1, 1, 2], ts_rewards = [0, 1], ts_actions = [2, 0]\<rparr>
       (mod_rng\<lparr>rng_pos := 6\<rparr>)
     = (Inr (?env 3,
             \<lparr>ts_alpha = [2, 2, 1], ts_beta = [1, 1, 2], ts_rewards = [0, 1, 1],
              ts_actions = [2, 0, 1]\<rparr>),
        mod_rng\<lparr>rng_pos := 9\<rparr>)"
    using r3 by (subst thompson_loop.simps) simp
  have l2: "thompson_loop (?env 1)
       \<lparr>ts_alpha = [1, 1, 1], ts_beta = [1, 1, 2], ts_rewards = [0], ts_actions = [2]\<rparr>
       (mod_rng\<lparr>rng_pos := 3\<rparr>)
     = (Inr (?env 3,
             \<lparr>ts_alpha = [2, 2, 1], ts_beta = [1, 1, 2], ts_rewards = [0, 1, 1],
              ts_actions = [2, 0, 1]\<rparr>),
        mod_rng\<lparr>rng_pos := 9\<rparr>)"
    using r2 l3 by (subst thompson_loop.simps) simp
  have l1: "thompson_loop (?env 0) (ts_init 3) mod_rng
     = (Inr (?env 3,
             \<lparr>ts_alpha = [2, 2, 1], ts_beta = [1, 1, 2], ts_rewards = [0, 1, 1],
              ts_actions = [2, 0, 1]\<rparr>),
        mod_rng\<lparr>rng_pos := 9\<rparr>)"
    using r1 l2 by (subst thompson_loop.simps) simp
  show ?thesis
    unfolding run_thompson_search_run_def init using l1 by simp
qed

subsection \<open>Counts\<close>

lemma sum_count_below:
  fixes xs :: "nat list"
  assumes "\<forall>a \<in> set xs. a < k"
  shows "(\<Sum>i<k. count_list xs i) = length xs"
proof -
  have "set xs \<subseteq> {..<k}" using assms by auto
  with sum_count_set[of xs "{..<k}"] show ?thesis by simp
qed

lemma epsilon_greedy_run_inv:
  assumes "epsilon_greedy_run bandit num_steps epsilon g = (Inr st, g')"
  shows "eg_inv (bb_k bandit) st" and "length (eg_rewards st) = nat num_steps"
    and "sum_list (eg_N st) = real (nat num_steps)"
proof -
  have z: "sum_list (replicate k (0::real)) = 0" for k by (induction k) simp_all
  from epsilon_greedy_loop_inv[OF eg_inv_init assms[unfolded epsilon_greedy_run_def]]
  show "eg_inv (bb_k bandit) st" and "length (eg_rewards st) = nat num_steps"
    and "sum_list (eg_N st) = real (nat num_steps)"
    by (simp_all add: eg_init_def z)
qed

lemma epsilon_greedy_run_succeeds:
  assumes "valid_rng g" and "ps \<noteq> []"
  shows "\<exists>st g'. epsilon_greedy_run (BernoulliBandit_init ps) num_steps epsilon g = (Inr st, g')"
proof -
  have k: "0 < bb_k (BernoulliBandit_init ps)"
    "length (bb_p (BernoulliBandit_init ps)) = bb_k (BernoulliBandit_init ps)"
    using assms(2) by (simp_all add: BernoulliBandit_init_def)
  from epsilon_greedy_loop_succeeds[OF assms(1) k eg_inv_init]
  show ?thesis by (simp add: epsilon_greedy_run_def)
qed

lemma run_thompson_search_run_inv:
  assumes "run_thompson_search_run env g = (Inr (env', st), g')"
  shows "ts_inv (sb_k env) st"
    and "int (length (ts_rewards st)) = max 1 (sb_num_queries env - sb_current_step env)"
  using thompson_loop_inv[OF ts_inv_init assms[unfolded run_thompson_search_run_def]]
  by (simp_all add: ts_init_def)

lemma run_thompson_search_run_succeeds:
  assumes "valid_rng g" and "SearchBandit_wf env"
  shows "\<exists>env' st g'. run_thompson_search_run env g = (Inr (env', st), g')"
  using thompson_loop_succeeds[OF assms ts_inv_init]
  by (simp add: run_thompson_search_run_def)

text \<open>
  C4: after every run, of either strategy and for every \<open>k\<close>, the per-arm selection counts
  add up to the number of rounds executed. For \<^verbatim>\<open>epsilon_greedy\<close> the counts are the
  array \<open>N\<close> (\<open>N[i]\<close> is the number of rounds that pulled arm \<open>i\<close>) and the rounds are
  \<^verbatim>\<open>num_steps\<close>; \<^verbatim>\<open>run_thompson_search\<close> keeps no \<open>N\<close>, its counts are the numbers of
  rounds that selected each arm, and equivalently \<open>sum(alpha) + sum(beta) = 2k + rounds\<close>.
  One reward is recorded per round. With at least one arm and a valid generator both
  runs do return.
\<close>

theorem selection_counts_sum_to_rounds:
  "(epsilon_greedy_run bandit num_steps epsilon g = (Inr st, g') \<longrightarrow>
      length (eg_rewards st) = nat num_steps \<and>
      sum_list (eg_N st) = real (length (eg_rewards st)) \<and>
      (\<forall>i<bb_k bandit. eg_N st ! i = real (count_list (eg_actions st) i)) \<and>
      (\<Sum>i<bb_k bandit. count_list (eg_actions st) i) = length (eg_rewards st)) \<and>
   (run_thompson_search_run env g = (Inr (env', ts), g'') \<longrightarrow>
      int (length (ts_rewards ts)) = max 1 (sb_num_queries env - sb_current_step env) \<and>
      (\<Sum>i<sb_k env. count_list (ts_actions ts) i) = length (ts_rewards ts) \<and>
      sum_list (ts_alpha ts) + sum_list (ts_beta ts)
        = 2 * real (sb_k env) + real (length (ts_rewards ts))) \<and>
   (valid_rng g \<and> ps \<noteq> [] \<longrightarrow>
      (\<exists>st g'. epsilon_greedy_run (BernoulliBandit_init ps) num_steps epsilon g = (Inr st, g'))) \<and>
   (valid_rng g \<and> SearchBandit_wf env \<longrightarrow>
      (\<exists>env' ts g'. run_thompson_search_run env g = (Inr (env', ts), g')))"
proof (intro conjI impI)
  assume r: "epsilon_greedy_run bandit num_steps epsilon g = (Inr st, g')"
  note I = epsilon_greedy_run_inv[OF r]
  show "length (eg_rewards st) = nat num_steps" using I(2) .
  show "sum_list (eg_N st) = real (length (eg_rewards st))" using I(2,3) by simp
  show "\<forall>i<bb_k bandit. eg_N st ! i = real (count_list (eg_actions st) i)"
    using I(1) by (simp add: eg_inv_def)
  have "\<forall>a \<in> set (eg_actions st). a < bb_k bandit" using I(1) by (simp add: eg_inv_def)
  from sum_count_below[OF this] I(1)
  show "(\<Sum>i<bb_k bandit. count_list (eg_actions st) i) = length (eg_rewards st)"
    by (simp add: eg_inv_def)
next
  assume r: "run_thompson_search_run env g = (Inr (env', ts), g'')"
  note I = run_thompson_search_run_inv[OF r]
  show "int (length (ts_rewards ts)) = max 1 (sb_num_queries env - sb_current_step env)"
    using I(2) .
  have "\<forall>a \<in> set (ts_actions ts). a < sb_k env" using I(1) by (simp add: ts_inv_def)
  from sum_count_below[OF this] I(1)
  show "(\<Sum>i<sb_k env. count_list (ts_actions ts) i) = length (ts_rewards ts)"
    by (simp add: ts_inv_def)
  show "sum_list (ts_alpha ts) + sum_list (ts_beta ts)
        = 2 * real (sb_k env) + real (length (ts_rewards ts))"
    using I(1) by (simp add: ts_inv_def)
next
  assume "valid_rng g \<and> ps \<noteq> []"
  then show "\<exists>st g'. epsilon_greedy_run (BernoulliBandit_init ps) num_steps epsilon g = (Inr st, g')"
    using epsilon_greedy_run_succeeds by blast
next
  assume "valid_rng g \<and> SearchBandit_wf env"
  then show "\<exists>env' ts g'. run_thompson_search_run env g = (Inr (env', ts), g')"
    using run_thompson_search_run_succeeds by blast
qed

theorem selection_counts_sum_to_rounds_witness:
  "epsilon_greedy_run (BernoulliBandit_init [1/10, 3/10, 8/10]) 3 (1/10) mod_rng
     = (Inr \<lparr>eg_Q = [1/2, 0, 0], eg_N = [2, 1, 0], eg_rewards = [0, 1, 0], eg_actions = [1, 0, 0]\<rparr>,
        mod_rng\<lparr>rng_pos := 7\<rparr>) \<and>
   sum_list [2, 1, 0 :: real] = real (length [0, 1, 0 :: int]) \<and>
   run_thompson_search_run (SearchBandit_init [[1, 1], [-1/2, 2], [2, -1/5]] 2 3) mod_rng
     = (Inr (\<lparr>sb_strategy_weights = [[1, 1], [-1/2, 2], [2, -1/5]], sb_k = 3, sb_context_dim = 2,
               sb_num_queries = 3, sb_current_step = 3\<rparr>,
             \<lparr>ts_alpha = [2, 2, 1], ts_beta = [1, 1, 2], ts_rewards = [0, 1, 1],
              ts_actions = [2, 0, 1]\<rparr>),
        mod_rng\<lparr>rng_pos := 9\<rparr>) \<and>
   (\<Sum>i<3. count_list [2, 0, 1 :: nat] i) = length [0, 1, 1 :: int] \<and>
   valid_rng mod_rng \<and> [1/10, 3/10, 8/10 :: real] \<noteq> [] \<and>
   SearchBandit_wf (SearchBandit_init [[1, 1], [-1/2, 2], [2, -1/5]] 2 3)"
proof -
  have wf: "SearchBandit_wf (SearchBandit_init [[1, 1], [-1/2, 2], [2, -1/5]] 2 3)"
    by (simp add: SearchBandit_init_wf)
  have k: "sb_k (SearchBandit_init [[1, 1], [-1/2, 2], [2, -1/5]] 2 3) = 3"
    by (simp add: SearchBandit_init_def)
  from selection_counts_sum_to_rounds
         [of "BernoulliBandit_init [1/10, 3/10, 8/10]" 3 "1/10" mod_rng
             "\<lparr>eg_Q = [1/2, 0, 0], eg_N = [2, 1, 0], eg_rewards = [0, 1, 0], eg_actions = [1, 0, 0]\<rparr>"
             "mod_rng\<lparr>rng_pos := 7\<rparr>"
             "SearchBandit_init [[1, 1], [-1/2, 2], [2, -1/5]] 2 3"
             "\<lparr>sb_strategy_weights = [[1, 1], [-1/2, 2], [2, -1/5]], sb_k = 3, sb_context_dim = 2,
               sb_num_queries = 3, sb_current_step = 3\<rparr>"
             "\<lparr>ts_alpha = [2, 2, 1], ts_beta = [1, 1, 2], ts_rewards = [0, 1, 1],
              ts_actions = [2, 0, 1]\<rparr>"
             "mod_rng\<lparr>rng_pos := 9\<rparr>" "[1/10, 3/10, 8/10]"]
       epsilon_greedy_run_example run_thompson_search_example valid_mod_rng wf
  show ?thesis
    by (simp add: BernoulliBandit_init_def SearchBandit_init_def numeral_3_eq_3 lessThan_Suc)
qed

text \<open>
  C5: the Thompson-sampling update adds \<open>1\<close> to \<open>alpha[arm]\<close> when the reward is \<open>1\<close> and
  otherwise adds \<open>1\<close> to \<open>beta[arm]\<close>; \<open>alpha\<close> and \<open>beta\<close> start at \<open>1\<close> for every arm;
  so after any run \<open>alpha[i] + beta[i] = 2 +\<close> the number of times arm \<open>i\<close> was selected,
  for every arm \<open>i\<close>.
\<close>

theorem thompson_pseudo_counts:
  "(thompson_update (alpha, beta) (arm, reward) = Inr (alpha', beta') \<longrightarrow>
      (reward = 1 \<longrightarrow> alpha' = alpha[arm := alpha ! arm + 1] \<and> beta' = beta) \<and>
      (reward \<noteq> 1 \<longrightarrow> beta' = beta[arm := beta ! arm + 1] \<and> alpha' = alpha)) \<and>
   (\<forall>i<k. ts_alpha (ts_init k) ! i = 1 \<and> ts_beta (ts_init k) ! i = 1) \<and>
   (run_thompson_search_run env g = (Inr (env', ts), g') \<longrightarrow>
      length (ts_alpha ts) = sb_k env \<and> length (ts_beta ts) = sb_k env \<and>
      (\<forall>i<sb_k env.
         ts_alpha ts ! i + ts_beta ts ! i = 2 + real (count_list (ts_actions ts) i))) \<and>
   (valid_rng g \<and> SearchBandit_wf env \<longrightarrow>
      (\<exists>env' ts g'. run_thompson_search_run env g = (Inr (env', ts), g')))"
proof -
  have upd: "thompson_update (alpha, beta) (arm, reward) = Inr (alpha', beta') \<longrightarrow>
      (reward = 1 \<longrightarrow> alpha' = alpha[arm := alpha ! arm + 1] \<and> beta' = beta) \<and>
      (reward \<noteq> 1 \<longrightarrow> beta' = beta[arm := beta ! arm + 1] \<and> alpha' = alpha)"
    using thompson_update_Inr[of alpha beta arm reward alpha' beta'] by blast
  have init: "\<forall>i<k. ts_alpha (ts_init k) ! i = 1 \<and> ts_beta (ts_init k) ! i = 1"
    by (simp add: ts_init_def)
  have run: "run_thompson_search_run env g = (Inr (env', ts), g') \<longrightarrow>
      length (ts_alpha ts) = sb_k env \<and> length (ts_beta ts) = sb_k env \<and>
      (\<forall>i<sb_k env.
         ts_alpha ts ! i + ts_beta ts ! i = 2 + real (count_list (ts_actions ts) i))"
  proof
    assume r: "run_thompson_search_run env g = (Inr (env', ts), g')"
    from run_thompson_search_run_inv(1)[OF r]
    show "length (ts_alpha ts) = sb_k env \<and> length (ts_beta ts) = sb_k env \<and>
      (\<forall>i<sb_k env.
         ts_alpha ts ! i + ts_beta ts ! i = 2 + real (count_list (ts_actions ts) i))"
      by (simp add: ts_inv_def)
  qed
  have total: "valid_rng g \<and> SearchBandit_wf env \<longrightarrow>
      (\<exists>env' ts g'. run_thompson_search_run env g = (Inr (env', ts), g'))"
    using run_thompson_search_run_succeeds by blast
  from upd init run total show ?thesis by blast
qed

theorem thompson_pseudo_counts_witness:
  "thompson_update ([1, 1, 1], [1, 1, 2]) (0, 1) = Inr ([2, 1, 1], [1, 1, 2]) \<and>
   thompson_update ([1, 1, 1], [1, 1, 1]) (2, 0) = Inr ([1, 1, 1], [1, 1, 2]) \<and>
   valid_rng mod_rng \<and>
   SearchBandit_wf (SearchBandit_init [[1, 1], [-1/2, 2], [2, -1/5]] 2 3) \<and>
   run_thompson_search_run (SearchBandit_init [[1, 1], [-1/2, 2], [2, -1/5]] 2 3) mod_rng
     = (Inr (\<lparr>sb_strategy_weights = [[1, 1], [-1/2, 2], [2, -1/5]], sb_k = 3, sb_context_dim = 2,
               sb_num_queries = 3, sb_current_step = 3\<rparr>,
             \<lparr>ts_alpha = [2, 2, 1], ts_beta = [1, 1, 2], ts_rewards = [0, 1, 1],
              ts_actions = [2, 0, 1]\<rparr>),
        mod_rng\<lparr>rng_pos := 9\<rparr>) \<and>
   [2, 2, 1 :: real] ! 0 + [1, 1, 2] ! 0 = 2 + real (count_list [2, 0, 1 :: nat] 0) \<and>
   [2, 2, 1 :: real] ! 1 + [1, 1, 2] ! 1 = 2 + real (count_list [2, 0, 1 :: nat] 1) \<and>
   [2, 2, 1 :: real] ! 2 + [1, 1, 2] ! 2 = 2 + real (count_list [2, 0, 1 :: nat] 2)"
proof -
  have u1: "thompson_update ([1, 1, 1], [1, 1, 2]) (0, 1) = Inr ([2, 1, 1], [1, 1, 2])"
    by (simp add: thompson_update_def)
  have u2: "thompson_update ([1, 1, 1], [1, 1, 1]) (2, 0) = Inr ([1, 1, 1], [1, 1, 2])"
    by (simp add: thompson_update_def)
  have wf: "SearchBandit_wf (SearchBandit_init [[1, 1], [-1/2, 2], [2, -1/5]] 2 3)"
    by (simp add: SearchBandit_init_wf)
  have k: "sb_k (SearchBandit_init [[1, 1], [-1/2, 2], [2, -1/5]] 2 3) = 3"
    by (simp add: SearchBandit_init_def)
  from thompson_pseudo_counts
         [where env = "SearchBandit_init [[1, 1], [-1/2, 2], [2, -1/5]] 2 3" and g = mod_rng
            and env' = "\<lparr>sb_strategy_weights = [[1, 1], [-1/2, 2], [2, -1/5]], sb_k = 3,
                          sb_context_dim = 2, sb_num_queries = 3, sb_current_step = 3\<rparr>"
            and ts = "\<lparr>ts_alpha = [2, 2, 1], ts_beta = [1, 1, 2], ts_rewards = [0, 1, 1],
                        ts_actions = [2, 0, 1]\<rparr>"
            and g' = "mod_rng\<lparr>rng_pos := 9\<rparr>"]
       run_thompson_search_example
  have "\<forall>i<3. [2, 2, 1 :: real] ! i + [1, 1, 2] ! i = 2 + real (count_list [2, 0, 1 :: nat] i)"
    unfolding k by simp
  then have "[2, 2, 1 :: real] ! 0 + [1, 1, 2] ! 0 = 2 + real (count_list [2, 0, 1 :: nat] 0)"
    and "[2, 2, 1 :: real] ! 1 + [1, 1, 2] ! 1 = 2 + real (count_list [2, 0, 1 :: nat] 1)"
    and "[2, 2, 1 :: real] ! 2 + [1, 1, 2] ! 2 = 2 + real (count_list [2, 0, 1 :: nat] 2)"
    by simp_all
  with u1 u2 wf valid_mod_rng run_thompson_search_example show ?thesis by (intro conjI)
qed

text \<open>
  C8: with \<open>k = 1\<close> both strategies select arm \<open>0\<close> on every round:
  \<^verbatim>\<open>randint(1)\<close> is \<open>0\<close>, \<^verbatim>\<open>argmax\<close> of a one-element array is \<open>0\<close>, so both branches
  of the epsilon-greedy selection give \<open>0\<close>, and so does the \<^verbatim>\<open>argmax\<close> over the single
  Beta sample; every action of a run of either strategy is \<open>0\<close>.
\<close>

theorem single_arm_always_selected:
  "(valid_rng g \<longrightarrow> np_random_randint 1 g = (Inr 0, advance g)) \<and>
   np_argmax [q] = Inr 0 \<and>
   (valid_rng g \<and> length Q = 1 \<longrightarrow> fst (epsilon_greedy_select epsilon 1 Q g) = Inr 0) \<and>
   (valid_rng g \<and> length alpha = 1 \<longrightarrow> np_argmax (fst (np_random_beta alpha beta g)) = Inr 0) \<and>
   (bb_k bandit = 1 \<and> epsilon_greedy_run bandit num_steps epsilon g = (Inr st, g') \<longrightarrow>
      length (eg_actions st) = nat num_steps \<and> (\<forall>a \<in> set (eg_actions st). a = 0)) \<and>
   (sb_k env = 1 \<and> run_thompson_search_run env g = (Inr (env', ts), g'') \<longrightarrow>
      int (length (ts_actions ts)) = max 1 (sb_num_queries env - sb_current_step env) \<and>
      (\<forall>a \<in> set (ts_actions ts). a = 0)) \<and>
   (valid_rng g \<longrightarrow>
      (\<exists>st g'. epsilon_greedy_run (BernoulliBandit_init [p0]) num_steps epsilon g = (Inr st, g'))) \<and>
   (valid_rng g \<longrightarrow>
      (\<exists>env' ts g'. run_thompson_search_run (SearchBandit_init [w] (length w) num_queries) g
                       = (Inr (env', ts), g')))"
proof (intro conjI impI)
  assume "valid_rng g"
  then have "\<forall>i n. 0 < n \<longrightarrow> rng_randint g i n < n" by (simp add: valid_rng_def)
  then have "rng_randint g (rng_pos g) 1 < 1" by (metis zero_less_one)
  then show "np_random_randint 1 g = (Inr 0, advance g)"
    by (simp add: np_random_randint_def)
next
  show "np_argmax [q] = Inr 0" by (rule np_argmax_single)
next
  assume a: "valid_rng g \<and> length Q = 1"
  from epsilon_greedy_select_in_range[of g 1 Q epsilon] a
  show "fst (epsilon_greedy_select epsilon 1 Q g) = Inr 0" by auto
next
  assume a: "valid_rng g \<and> length alpha = 1"
  then have "length (fst (np_random_beta alpha beta g)) = 1"
    by (simp add: np_random_beta_def valid_rng_def)
  then obtain x where "fst (np_random_beta alpha beta g) = [x]"
    by (cases "fst (np_random_beta alpha beta g)") auto
  then show "np_argmax (fst (np_random_beta alpha beta g)) = Inr 0"
    by (simp add: np_argmax_single)
next
  assume a: "bb_k bandit = 1 \<and> epsilon_greedy_run bandit num_steps epsilon g = (Inr st, g')"
  note I = epsilon_greedy_run_inv[OF conjunct2[OF a]]
  show "length (eg_actions st) = nat num_steps" using I(1,2) by (simp add: eg_inv_def)
  show "\<forall>a \<in> set (eg_actions st). a = 0" using I(1) a by (auto simp: eg_inv_def)
next
  assume a: "sb_k env = 1 \<and> run_thompson_search_run env g = (Inr (env', ts), g'')"
  note I = run_thompson_search_run_inv[OF conjunct2[OF a]]
  show "int (length (ts_actions ts)) = max 1 (sb_num_queries env - sb_current_step env)"
    using I by (simp add: ts_inv_def)
  show "\<forall>a \<in> set (ts_actions ts). a = 0" using I(1) a by (auto simp: ts_inv_def)
next
  assume "valid_rng g"
  then show "\<exists>st g'. epsilon_greedy_run (BernoulliBandit_init [p0]) num_steps epsilon g = (Inr st, g')"
    using epsilon_greedy_run_succeeds[of g "[p0]"] by simp
next
  assume v: "valid_rng g"
  have "SearchBandit_wf (SearchBandit_init [w] (length w) num_queries)"
    by (simp add: SearchBandit_init_wf)
  from run_thompson_search_run_succeeds[OF v this]
  show "\<exists>env' ts g'. run_thompson_search_run (SearchBandit_init [w] (length w) num_queries) g
                       = (Inr (env', ts), g')" .
qed

theorem single_arm_always_selected_witness:
  "valid_rng mod_rng \<and> length [0 :: real] = 1 \<and>
   bb_k (BernoulliBandit_init [1/2]) = 1 \<and> sb_k (SearchBandit_init [[1, 1]] 2 3) = 1 \<and>
   fst (epsilon_greedy_select (1/10) 1 [0] mod_rng) = Inr 0 \<and>
   (\<exists>st g'. epsilon_greedy_run (BernoulliBandit_init [1/2]) 5 (1/10) mod_rng = (Inr st, g') \<and>
            length (eg_actions st) = 5 \<and> (\<forall>a \<in> set (eg_actions st). a = 0)) \<and>
   (\<exists>env' ts g'. run_thompson_search_run (SearchBandit_init [[1, 1]] 2 3) mod_rng
                    = (Inr (env', ts), g') \<and>
                  length (ts_actions ts) = 3 \<and> (\<forall>a \<in> set (ts_actions ts). a = 0))"
proof -
  note v = valid_mod_rng
  have kb: "bb_k (BernoulliBandit_init [1/2]) = 1" by (simp add: BernoulliBandit_init_def)
  have ks: "sb_k (SearchBandit_init [[1, 1]] 2 3) = 1" by (simp add: SearchBandit_init_def)
  have q: "length [0 :: real] = 1" by simp
  have sel: "fst (epsilon_greedy_select (1/10) 1 [0] mod_rng) = Inr 0"
    using single_arm_always_selected[where g = mod_rng and Q = "[0]" and epsilon = "1/10"] v
    by simp
  have "\<exists>st g'. epsilon_greedy_run (BernoulliBandit_init [1/2]) 5 (1/10) mod_rng = (Inr st, g')"
    using single_arm_always_selected
            [where g = mod_rng and epsilon = "1/10" and num_steps = 5 and ?p0.0 = "1/2"] v
    by blast
  then obtain st g' where
    r: "epsilon_greedy_run (BernoulliBandit_init [1/2]) 5 (1/10) mod_rng = (Inr st, g')" by blast
  have e: "length (eg_actions st) = 5 \<and> (\<forall>a \<in> set (eg_actions st). a = 0)"
    using single_arm_always_selected
            [where g = mod_rng and epsilon = "1/10" and bandit = "BernoulliBandit_init [1/2]"
               and num_steps = 5 and st = st and g' = g'] kb r by simp
  have "\<exists>env' ts g'. run_thompson_search_run (SearchBandit_init [[1, 1]] (length [1, 1 :: real]) 3) mod_rng
                    = (Inr (env', ts), g')"
    using single_arm_always_selected[where g = mod_rng and w = "[1, 1]" and num_queries = 3] v
    by blast
  moreover have "length [1, 1 :: real] = 2" by simp
  ultimately have "\<exists>env' ts g'. run_thompson_search_run (SearchBandit_init [[1, 1]] 2 3) mod_rng
                    = (Inr (env', ts), g')"
    by (simp only:)
  then obtain env' ts g'' where
    t: "run_thompson_search_run (SearchBandit_init [[1, 1]] 2 3) mod_rng = (Inr (env', ts), g'')"
    by blast
  have "int (length (ts_actions ts)) = max 1 (sb_num_queries (SearchBandit_init [[1, 1]] 2 3)
            - sb_current_step (SearchBandit_init [[1, 1]] 2 3)) \<and> (\<forall>a \<in> set (ts_actions ts). a = 0)"
    using single_arm_always_selected
            [where g = mod_rng and env = "SearchBandit_init [[1, 1]] 2 3" and env' = env'
               and ts = ts and g'' = g''] ks t by simp
  then have f: "length (ts_actions ts) = 3 \<and> (\<forall>a \<in> set (ts_actions ts). a = 0)"
    by (simp add: SearchBandit_init_def)
  have E: "\<exists>st g'. epsilon_greedy_run (BernoulliBandit_init [1/2]) 5 (1/10) mod_rng = (Inr st, g') \<and>
            length (eg_actions st) = 5 \<and> (\<forall>a \<in> set (eg_actions st). a = 0)"
    using r e by (intro exI[of _ st] exI[of _ g']) simp
  have T: "\<exists>env' ts g'. run_thompson_search_run (SearchBandit_init [[1, 1]] 2 3) mod_rng
                    = (Inr (env', ts), g') \<and>
                  length (ts_actions ts) = 3 \<and> (\<forall>a \<in> set (ts_actions ts). a = 0)"
    using t f by (intro exI[of _ env'] exI[of _ ts] exI[of _ g'']) simp
  show ?thesis using v q kb ks sel E T by - (intro conjI; assumption)
qed




subsection \<open>Step counters and the \<^verbatim>\<open>done\<close> flag\<close>

lemma step_calls_done:
  assumes step: "\<And>env a g r env' g'. step env a g = (Inr (r, env'), g') \<Longrightarrow>
                   counter env' = counter env + 1 \<and> horizon env' = horizon env \<and>
                   flag r = (horizon env \<le> counter env + 1)"
    and "step_calls step env as g = (Inr (rs, env'), g')"
  shows "length rs = length as \<and> counter env' = counter env + int (length as) \<and>
         horizon env' = horizon env \<and>
         (\<forall>i<length as. flag (rs ! i) = (horizon env \<le> counter env + int i + 1))"
  using assms(2)
proof (induction as arbitrary: env g rs)
  case Nil
  then show ?case by simp
next
  case (Cons a as)
  from Cons.prems obtain r env1 g1 rs1 where
    s: "step env a g = (Inr (r, env1), g1)" and
    c: "step_calls step env1 as g1 = (Inr (rs1, env'), g')" and
    rs: "rs = r # rs1"
    by (auto split: prod.splits sum.splits)
  note S = step[OF s]
  note IH = Cons.IH[OF c]
  have "flag (rs ! i) = (horizon env \<le> counter env + int i + 1)" if "i < length (a # as)" for i
  proof (cases i)
    case 0
    then show ?thesis using S rs by simp
  next
    case (Suc j)
    with that have "j < length as" by simp
    with IH have "flag (rs1 ! j) = (horizon env1 \<le> counter env1 + int j + 1)" by blast
    then show ?thesis using S rs Suc by simp
  qed
  then show ?case using IH S rs by simp
qed

lemma BernoulliBanditEnv_step_Inr:
  assumes "BernoulliBanditEnv_step env a g = (Inr (ret, env'), g')"
  shows "env' = env\<lparr>be_current_step := be_current_step env + 1\<rparr>"
    and "\<exists>r. ret = ([0], r, be_num_steps env \<le> be_current_step env + 1, False, ())"
  using assms
  by (auto simp: BernoulliBanditEnv_step_def np_random_rand_def Let_def split: sum.splits)

lemma SearchBandit_step_Inr:
  assumes "SearchBandit_step env a c g = (Inr (ret, env'), g')"
  shows "env' = env\<lparr>sb_current_step := sb_current_step env + 1\<rparr>"
    and "\<exists>r. ret = (r, sb_num_queries env \<le> sb_current_step env + 1)"
  using assms
  by (auto simp: SearchBandit_step_def np_random_rand_def Let_def split: sum.splits)

lemma RecommenderSystemBandit_step_Inr:
  assumes "RecommenderSystemBandit_step env a c g = (Inr (ret, env'), g')"
  shows "env' = env\<lparr>rs_current_step := rs_current_step env + 1\<rparr>"
    and "\<exists>r. ret = (r, rs_num_users env \<le> rs_current_step env + 1)"
  using assms
  by (auto simp: RecommenderSystemBandit_step_def np_random_rand_def Let_def split: sum.splits)

lemma RecommenderSystemGymEnv_step_Inr:
  assumes "RecommenderSystemGymEnv_step env a g = (Inr (ret, env'), g')"
  shows "\<exists>c. env' = env\<lparr>rg_current_step := rg_current_step env + 1, rg_context := Some c\<rparr> \<and>
             (\<exists>r. ret = (c, r, rg_num_users env \<le> rg_current_step env + 1, False, ()))"
  using assms
  by (auto simp: RecommenderSystemGymEnv_step_def np_random_rand_def np_random_randn_def Let_def
           split: sum.splits option.splits)


lemma BernoulliBanditEnv_calls_done:
  assumes "be_current_step env = 0"
    and "step_calls BernoulliBanditEnv_step env as g = (Inr (rets, env'), g')"
  shows "length rets = length as \<and> be_current_step env' = int (length as) \<and>
         (\<forall>i<length as. (case rets ! i of (obs, r, d, t, info) \<Rightarrow> d)
                           = (be_num_steps env \<le> int (i + 1)))"
proof -
  have "length rets = length as \<and>
        be_current_step env' = be_current_step env + int (length as) \<and>
        be_num_steps env' = be_num_steps env \<and>
        (\<forall>i<length as. (case rets ! i of (obs, r, d, t, info) \<Rightarrow> d)
                          = (be_num_steps env \<le> be_current_step env + int i + 1))"
  proof (rule step_calls_done[OF _ assms(2)])
    fix e a h r e' h'
    assume "BernoulliBanditEnv_step e a h = (Inr (r, e'), h')"
    from BernoulliBanditEnv_step_Inr[OF this]
    show "be_current_step e' = be_current_step e + 1 \<and> be_num_steps e' = be_num_steps e \<and>
          (case r of (obs, r, d, t, info) \<Rightarrow> d) = (be_num_steps e \<le> be_current_step e + 1)"
      by auto
  qed
  then show ?thesis using assms(1) by (simp add: add.commute)
qed

lemma SearchBandit_calls_done:
  assumes "sb_current_step env = 0"
    and "step_calls (\<lambda>env (a, c). SearchBandit_step env a c) env as g = (Inr (rets, env'), g')"
  shows "length rets = length as \<and> sb_current_step env' = int (length as) \<and>
         (\<forall>i<length as. snd (rets ! i) = (sb_num_queries env \<le> int (i + 1)))"
proof -
  have "length rets = length as \<and>
        sb_current_step env' = sb_current_step env + int (length as) \<and>
        sb_num_queries env' = sb_num_queries env \<and>
        (\<forall>i<length as. snd (rets ! i) = (sb_num_queries env \<le> sb_current_step env + int i + 1))"
  proof (rule step_calls_done[OF _ assms(2)])
    fix e ac h r e' h'
    assume s: "(case ac of (a, c) \<Rightarrow> SearchBandit_step e a c) h = (Inr (r, e'), h')"
    obtain a c where "ac = (a, c)" by (cases ac)
    with s have "SearchBandit_step e a c h = (Inr (r, e'), h')" by simp
    from SearchBandit_step_Inr[OF this]
    show "sb_current_step e' = sb_current_step e + 1 \<and> sb_num_queries e' = sb_num_queries e \<and>
          snd r = (sb_num_queries e \<le> sb_current_step e + 1)"
      by auto
  qed
  then show ?thesis using assms(1) by (simp add: add.commute)
qed

lemma RecommenderSystemBandit_calls_done:
  assumes "rs_current_step env = 0"
    and "step_calls (\<lambda>env (a, c). RecommenderSystemBandit_step env a c) env as g
           = (Inr (rets, env'), g')"
  shows "length rets = length as \<and> rs_current_step env' = int (length as) \<and>
         (\<forall>i<length as. snd (rets ! i) = (rs_num_users env \<le> int (i + 1)))"
proof -
  have "length rets = length as \<and>
        rs_current_step env' = rs_current_step env + int (length as) \<and>
        rs_num_users env' = rs_num_users env \<and>
        (\<forall>i<length as. snd (rets ! i) = (rs_num_users env \<le> rs_current_step env + int i + 1))"
  proof (rule step_calls_done[OF _ assms(2)])
    fix e ac h r e' h'
    assume s: "(case ac of (a, c) \<Rightarrow> RecommenderSystemBandit_step e a c) h = (Inr (r, e'), h')"
    obtain a c where "ac = (a, c)" by (cases ac)
    with s have "RecommenderSystemBandit_step e a c h = (Inr (r, e'), h')" by simp
    from RecommenderSystemBandit_step_Inr[OF this]
    show "rs_current_step e' = rs_current_step e + 1 \<and> rs_num_users e' = rs_num_users e \<and>
          snd r = (rs_num_users e \<le> rs_current_step e + 1)"
      by auto
  qed
  then show ?thesis using assms(1) by (simp add: add.commute)
qed

lemma RecommenderSystemGymEnv_calls_done:
  assumes "rg_current_step env = 0"
    and "step_calls RecommenderSystemGymEnv_step env as g = (Inr (rets, env'), g')"
  shows "length rets = length as \<and> rg_current_step env' = int (length as) \<and>
         (\<forall>i<length as. (case rets ! i of (obs, r, d, t, info) \<Rightarrow> d)
                           = (rg_num_users env \<le> int (i + 1)))"
proof -
  have "length rets = length as \<and>
        rg_current_step env' = rg_current_step env + int (length as) \<and>
        rg_num_users env' = rg_num_users env \<and>
        (\<forall>i<length as. (case rets ! i of (obs, r, d, t, info) \<Rightarrow> d)
                          = (rg_num_users env \<le> rg_current_step env + int i + 1))"
  proof (rule step_calls_done[OF _ assms(2)])
    fix e a h r e' h'
    assume "RecommenderSystemGymEnv_step e a h = (Inr (r, e'), h')"
    from RecommenderSystemGymEnv_step_Inr[OF this]
    show "rg_current_step e' = rg_current_step e + 1 \<and> rg_num_users e' = rg_num_users e \<and>
          (case r of (obs, r, d, t, info) \<Rightarrow> d) = (rg_num_users e \<le> rg_current_step e + 1)"
      by auto
  qed
  then show ?thesis using assms(1) by (simp add: add.commute)
qed

text \<open>
  C7 (as stated, refuted): "every bandit simulator keeps a step counter, and \<^verbatim>\<open>step\<close>
  returns \<open>(observation, reward, done, info)\<close>". \<^verbatim>\<open>BernoulliBandit.step\<close> returns the
  bare reward: there is no \<^verbatim>\<open>done\<close> flag, and the class has no counter and no horizon.
  \<^verbatim>\<open>BernoulliBanditEnv.step\<close> returns five values, not four.
\<close>

theorem step_returns_no_done_flag:
  "BernoulliBandit_step_returns (BernoulliBandit_init [1/10, 3/10, 8/10]) 2 mod_rng = Inr (PyInt 1) \<and>
   BernoulliBanditEnv_step_returns
       \<lparr>be_p = [1/10, 3/10, 8/10], be_k = 3, be_num_steps = 2, be_current_step = 0\<rparr> 2 mod_rng
     = Inr (PyTuple [PyArray [0], PyFloat 1, PyBool False, PyBool False, PyEmptyDict])"
  by (simp add: BernoulliBandit_step_returns_def BernoulliBandit_step_def BernoulliBandit_init_def
        BernoulliBanditEnv_step_returns_def BernoulliBanditEnv_step_def
        np_random_rand_def np_getitem_def np_position_def mod_rng_def)

text \<open>
  C7 (amended): every simulator other than the plain \<^verbatim>\<open>BernoulliBandit\<close>, that is
  \<^verbatim>\<open>BernoulliBanditEnv\<close>, \<^verbatim>\<open>SearchBandit\<close>, \<^verbatim>\<open>RecommenderSystemBandit\<close> and
  \<^verbatim>\<open>RecommenderSystemGymEnv\<close>, keeps a step counter that is \<open>0\<close> after construction
  (and after \<^verbatim>\<open>reset\<close>, where there is one) and that every \<^verbatim>\<open>step\<close> call that returns
  increments by one. The \<^verbatim>\<open>done\<close> flag that \<^verbatim>\<open>step\<close> returns is true if and only if the
  incremented counter has reached the horizon, so the \<open>i\<close>-th call since construction or
  reset returns \<open>done = (horizon \<le> i)\<close>. The Gymnasium environments return
  \<open>(observation, reward, done, False, info)\<close>, the other two \<open>(reward, done)\<close>. \<^verbatim>\<open>step\<close>
  changes nothing else in the simulator, except that \<^verbatim>\<open>RecommenderSystemGymEnv\<close> also
  stores the context of the next user. \<^verbatim>\<open>BernoulliBandit.step\<close> returns only the reward.
\<close>

theorem done_flag_iff_horizon_reached:
  "(BernoulliBanditEnv_init ps num_steps = Inr benv0 \<longrightarrow>
      be_current_step benv0 = 0 \<and> be_num_steps benv0 = num_steps) \<and>
   snd (BernoulliBanditEnv_reset benv) = benv\<lparr>be_current_step := 0\<rparr> \<and>
   (BernoulliBanditEnv_step benv a g = (Inr (bret, benv'), g') \<longrightarrow>
      benv' = benv\<lparr>be_current_step := be_current_step benv + 1\<rparr> \<and>
      (\<exists>r. bret = ([0], r, be_num_steps benv \<le> be_current_step benv + 1, False, ()))) \<and>
   (be_current_step benv = 0 \<and>
    step_calls BernoulliBanditEnv_step benv as g = (Inr (brets, benv''), g'') \<longrightarrow>
      length brets = length as \<and> be_current_step benv'' = int (length as) \<and>
      (\<forall>i<length as. (case brets ! i of (obs, r, d, t, info) \<Rightarrow> d)
                        = (be_num_steps benv \<le> int (i + 1)))) \<and>
   sb_current_step (SearchBandit_init ws cdim num_queries) = 0 \<and>
   sb_num_queries (SearchBandit_init ws cdim num_queries) = num_queries \<and>
   (SearchBandit_step senv a c g = (Inr (sret, senv'), g') \<longrightarrow>
      senv' = senv\<lparr>sb_current_step := sb_current_step senv + 1\<rparr> \<and>
      (\<exists>r. sret = (r, sb_num_queries senv \<le> sb_current_step senv + 1))) \<and>
   (sb_current_step senv = 0 \<and>
    step_calls (\<lambda>env (a, c). SearchBandit_step env a c) senv acs g = (Inr (srets, senv''), g'') \<longrightarrow>
      length srets = length acs \<and> sb_current_step senv'' = int (length acs) \<and>
      (\<forall>i<length acs. snd (srets ! i) = (sb_num_queries senv \<le> int (i + 1)))) \<and>
   rs_current_step (RecommenderSystemBandit_init ws cdim num_users) = 0 \<and>
   rs_num_users (RecommenderSystemBandit_init ws cdim num_users) = num_users \<and>
   (RecommenderSystemBandit_step renv a c g = (Inr (rret, renv'), g') \<longrightarrow>
      renv' = renv\<lparr>rs_current_step := rs_current_step renv + 1\<rparr> \<and>
      (\<exists>r. rret = (r, rs_num_users renv \<le> rs_current_step renv + 1))) \<and>
   (rs_current_step renv = 0 \<and>
    step_calls (\<lambda>env (a, c). RecommenderSystemBandit_step env a c) renv acs g
      = (Inr (rrets, renv''), g'') \<longrightarrow>
      length rrets = length acs \<and> rs_current_step renv'' = int (length acs) \<and>
      (\<forall>i<length acs. snd (rrets ! i) = (rs_num_users renv \<le> int (i + 1)))) \<and>
   (RecommenderSystemGymEnv_init ws cdim num_users = Inr genv0 \<longrightarrow>
      rg_current_step genv0 = 0 \<and> rg_num_users genv0 = num_users) \<and>
   (\<exists>c0. snd (fst (RecommenderSystemGymEnv_reset genv g))
           = genv\<lparr>rg_current_step := 0, rg_context := Some c0\<rparr>) \<and>
   (RecommenderSystemGymEnv_step genv a g = (Inr (gret, genv'), g') \<longrightarrow>
      (\<exists>c'. genv' = genv\<lparr>rg_current_step := rg_current_step genv + 1, rg_context := Some c'\<rparr> \<and>
            (\<exists>r. gret = (c', r, rg_num_users genv \<le> rg_current_step genv + 1, False, ())))) \<and>
   (rg_current_step genv = 0 \<and>
    step_calls RecommenderSystemGymEnv_step genv as g = (Inr (grets, genv''), g'') \<longrightarrow>
      length grets = length as \<and> rg_current_step genv'' = int (length as) \<and>
      (\<forall>i<length as. (case grets ! i of (obs, r, d, t, info) \<Rightarrow> d)
                        = (rg_num_users genv \<le> int (i + 1)))) \<and>
   (BernoulliBandit_step_returns self a g = Inr v \<longrightarrow> v = PyInt 0 \<or> v = PyInt 1)"
proof -
  have b0: "BernoulliBanditEnv_init ps num_steps = Inr benv0 \<longrightarrow>
      be_current_step benv0 = 0 \<and> be_num_steps benv0 = num_steps"
    by (auto simp: BernoulliBanditEnv_init_def split: if_splits)
  have b1: "snd (BernoulliBanditEnv_reset benv) = benv\<lparr>be_current_step := 0\<rparr>"
    by (simp add: BernoulliBanditEnv_reset_def)
  have b2: "BernoulliBanditEnv_step benv a g = (Inr (bret, benv'), g') \<longrightarrow>
      benv' = benv\<lparr>be_current_step := be_current_step benv + 1\<rparr> \<and>
      (\<exists>r. bret = ([0], r, be_num_steps benv \<le> be_current_step benv + 1, False, ()))"
    using BernoulliBanditEnv_step_Inr by blast
  have b3: "be_current_step benv = 0 \<and>
    step_calls BernoulliBanditEnv_step benv as g = (Inr (brets, benv''), g'') \<longrightarrow>
      length brets = length as \<and> be_current_step benv'' = int (length as) \<and>
      (\<forall>i<length as. (case brets ! i of (obs, r, d, t, info) \<Rightarrow> d)
                        = (be_num_steps benv \<le> int (i + 1)))"
    by (intro impI, rule BernoulliBanditEnv_calls_done) (erule conjunct1, erule conjunct2)
  have s0: "sb_current_step (SearchBandit_init ws cdim num_queries) = 0 \<and>
            sb_num_queries (SearchBandit_init ws cdim num_queries) = num_queries"
    by (simp add: SearchBandit_init_def)
  have s2: "SearchBandit_step senv a c g = (Inr (sret, senv'), g') \<longrightarrow>
      senv' = senv\<lparr>sb_current_step := sb_current_step senv + 1\<rparr> \<and>
      (\<exists>r. sret = (r, sb_num_queries senv \<le> sb_current_step senv + 1))"
    using SearchBandit_step_Inr by blast
  have s3: "sb_current_step senv = 0 \<and>
    step_calls (\<lambda>env (a, c). SearchBandit_step env a c) senv acs g = (Inr (srets, senv''), g'') \<longrightarrow>
      length srets = length acs \<and> sb_current_step senv'' = int (length acs) \<and>
      (\<forall>i<length acs. snd (srets ! i) = (sb_num_queries senv \<le> int (i + 1)))"
    by (intro impI, rule SearchBandit_calls_done) (erule conjunct1, erule conjunct2)
  have r0: "rs_current_step (RecommenderSystemBandit_init ws cdim num_users) = 0 \<and>
            rs_num_users (RecommenderSystemBandit_init ws cdim num_users) = num_users"
    by (simp add: RecommenderSystemBandit_init_def)
  have r2: "RecommenderSystemBandit_step renv a c g = (Inr (rret, renv'), g') \<longrightarrow>
      renv' = renv\<lparr>rs_current_step := rs_current_step renv + 1\<rparr> \<and>
      (\<exists>r. rret = (r, rs_num_users renv \<le> rs_current_step renv + 1))"
    using RecommenderSystemBandit_step_Inr by blast
  have r3: "rs_current_step renv = 0 \<and>
    step_calls (\<lambda>env (a, c). RecommenderSystemBandit_step env a c) renv acs g
      = (Inr (rrets, renv''), g'') \<longrightarrow>
      length rrets = length acs \<and> rs_current_step renv'' = int (length acs) \<and>
      (\<forall>i<length acs. snd (rrets ! i) = (rs_num_users renv \<le> int (i + 1)))"
    by (intro impI, rule RecommenderSystemBandit_calls_done) (erule conjunct1, erule conjunct2)
  have g0: "RecommenderSystemGymEnv_init ws cdim num_users = Inr genv0 \<longrightarrow>
      rg_current_step genv0 = 0 \<and> rg_num_users genv0 = num_users"
    by (auto simp: RecommenderSystemGymEnv_init_def split: if_splits)
  have g1: "\<exists>c0. snd (fst (RecommenderSystemGymEnv_reset genv g))
           = genv\<lparr>rg_current_step := 0, rg_context := Some c0\<rparr>"
    by (rule exI[of _ "astype_float32 (rng_randn g (rng_pos g) (rg_context_dim genv))"])
       (simp add: RecommenderSystemGymEnv_reset_def np_random_randn_def Let_def)
  have g2: "RecommenderSystemGymEnv_step genv a g = (Inr (gret, genv'), g') \<longrightarrow>
      (\<exists>c'. genv' = genv\<lparr>rg_current_step := rg_current_step genv + 1, rg_context := Some c'\<rparr> \<and>
            (\<exists>r. gret = (c', r, rg_num_users genv \<le> rg_current_step genv + 1, False, ())))"
    using RecommenderSystemGymEnv_step_Inr by blast
  have g3: "rg_current_step genv = 0 \<and>
    step_calls RecommenderSystemGymEnv_step genv as g = (Inr (grets, genv''), g'') \<longrightarrow>
      length grets = length as \<and> rg_current_step genv'' = int (length as) \<and>
      (\<forall>i<length as. (case grets ! i of (obs, r, d, t, info) \<Rightarrow> d)
                        = (rg_num_users genv \<le> int (i + 1)))"
    by (intro impI, rule RecommenderSystemGymEnv_calls_done) (erule conjunct1, erule conjunct2)
  have p: "BernoulliBandit_step_returns self a g = Inr v \<longrightarrow> v = PyInt 0 \<or> v = PyInt 1"
  proof
    assume "BernoulliBandit_step_returns self a g = Inr v"
    then obtain r where "fst (BernoulliBandit_step self a g) = Inr r" and v: "v = PyInt r"
      by (auto simp: BernoulliBandit_step_returns_def split: sum.splits)
    then have "BernoulliBandit_step self a g = (Inr r, snd (BernoulliBandit_step self a g))"
      by (metis prod.collapse)
    from BernoulliBandit_step_reward[OF this] v show "v = PyInt 0 \<or> v = PyInt 1" by simp
  qed
  from b0 b1 b2 b3 s0 s2 s3 r0 r2 r3 g0 g1 g2 g3 p show ?thesis
    by (intro conjI) (simp_all only:)
qed


theorem done_flag_iff_horizon_reached_witness:
  "BernoulliBanditEnv_init [1/10, 3/10, 8/10] 2
     = Inr \<lparr>be_p = [1/10, 3/10, 8/10], be_k = 3, be_num_steps = 2, be_current_step = 0\<rparr> \<and>
   step_calls BernoulliBanditEnv_step
       \<lparr>be_p = [1/10, 3/10, 8/10], be_k = 3, be_num_steps = 2, be_current_step = 0\<rparr>
       [2, 0] mod_rng
     = (Inr ([([0], 1, False, False, ()), ([0], 0, True, False, ())],
             \<lparr>be_p = [1/10, 3/10, 8/10], be_k = 3, be_num_steps = 2, be_current_step = 2\<rparr>),
        mod_rng\<lparr>rng_pos := 2\<rparr>) \<and>
   (case [([0 :: real], 1 :: real, False, False, ()), ([0], 0, True, False, ())] ! 0 of
      (obs, r, d, t, info) \<Rightarrow> d) = ((2 :: int) \<le> int (0 + 1)) \<and>
   (case [([0 :: real], 1 :: real, False, False, ()), ([0], 0, True, False, ())] ! 1 of
      (obs, r, d, t, info) \<Rightarrow> d) = ((2 :: int) \<le> int (1 + 1)) \<and>
   SearchBandit_step (SearchBandit_init [[1, 1], [-1/2, 2], [2, -1/5]] 2 1) 0 [0, 0] mod_rng
     = (Inr ((1, True),
             (SearchBandit_init [[1, 1], [-1/2, 2], [2, -1/5]] 2 1)\<lparr>sb_current_step := 1\<rparr>),
        mod_rng\<lparr>rng_pos := 1\<rparr>) \<and>
   RecommenderSystemBandit_step (RecommenderSystemBandit_init [[3/2, 1/2]] 2 5) 0 [0, 0] mod_rng
     = (Inr ((1, False),
             (RecommenderSystemBandit_init [[3/2, 1/2]] 2 5)\<lparr>rs_current_step := 1\<rparr>),
        mod_rng\<lparr>rng_pos := 1\<rparr>) \<and>
   RecommenderSystemGymEnv_step
       \<lparr>rg_item_weights = [[3/2, 1/2]], rg_k = 1, rg_context_dim = 2, rg_num_users = 1,
        rg_current_step = 0, rg_context = Some [0, 0]\<rparr> 0 mod_rng
     = (Inr (([0, 0], 1, True, False, ()),
             \<lparr>rg_item_weights = [[3/2, 1/2]], rg_k = 1, rg_context_dim = 2, rg_num_users = 1,
              rg_current_step = 1, rg_context = Some [0, 0]\<rparr>),
        mod_rng\<lparr>rng_pos := 2\<rparr>)"
proof -
  let ?E = "\<lambda>n. \<lparr>be_p = [1/10, 3/10, 8/10], be_k = 3, be_num_steps = 2, be_current_step = n\<rparr>"
  have init: "BernoulliBanditEnv_init [1/10, 3/10, 8/10] 2 = Inr (?E 0)"
    by (simp add: BernoulliBanditEnv_init_def)
  have c1: "BernoulliBanditEnv_step (?E 0) 2 mod_rng
              = (Inr (([0], 1, False, False, ()), ?E 1), mod_rng\<lparr>rng_pos := 1\<rparr>)"
    by (simp add: BernoulliBanditEnv_step_def np_random_rand_def np_getitem_def np_position_def
          mod_rng_def advance_def)
  have c2: "BernoulliBanditEnv_step (?E 1) 0 (mod_rng\<lparr>rng_pos := 1\<rparr>)
              = (Inr (([0], 0, True, False, ()), ?E 2), mod_rng\<lparr>rng_pos := 2\<rparr>)"
    by (simp add: BernoulliBanditEnv_step_def np_random_rand_def np_getitem_def np_position_def
          mod_rng_def advance_def)
  have calls: "step_calls BernoulliBanditEnv_step (?E 0) [2, 0] mod_rng
     = (Inr ([([0], 1, False, False, ()), ([0], 0, True, False, ())], ?E 2),
        mod_rng\<lparr>rng_pos := 2\<rparr>)"
    using c1 c2 by simp
  have z: "be_current_step (?E 0) = 0 \<and>
           step_calls BernoulliBanditEnv_step (?E 0) [2, 0] mod_rng
     = (Inr ([([0], 1, False, False, ()), ([0], 0, True, False, ())], ?E 2),
        mod_rng\<lparr>rng_pos := 2\<rparr>)"
    using calls by simp
  note T = done_flag_iff_horizon_reached
             [where benv = "?E 0" and as = "[2, 0]" and g = mod_rng
                and brets = "[([0], 1, False, False, ()), ([0], 0, True, False, ())]"
                and benv'' = "?E 2" and g'' = "mod_rng\<lparr>rng_pos := 2\<rparr>"]
  from mp[OF conjunct1[OF conjunct2[OF conjunct2[OF conjunct2[OF T]]]] z]
  have all: "\<forall>i<length [2, 0 :: int].
      (case [([0 :: real], 1 :: real, False, False, ()), ([0], 0, True, False, ())] ! i of
         (obs, r, d, t, info) \<Rightarrow> d) = ((2 :: int) \<le> int (i + 1))"
    by simp
  have f0:
    "(case [([0 :: real], 1 :: real, False, False, ()), ([0], 0, True, False, ())] ! 0 of
        (obs, r, d, t, info) \<Rightarrow> d) = ((2 :: int) \<le> int (0 + 1))"
    and f1:
    "(case [([0 :: real], 1 :: real, False, False, ()), ([0], 0, True, False, ())] ! 1 of
        (obs, r, d, t, info) \<Rightarrow> d) = ((2 :: int) \<le> int (1 + 1))"
    using all by simp_all
  have s: "SearchBandit_step (SearchBandit_init [[1, 1], [-1/2, 2], [2, -1/5]] 2 1) 0 [0, 0] mod_rng
     = (Inr ((1, True),
             (SearchBandit_init [[1, 1], [-1/2, 2], [2, -1/5]] 2 1)\<lparr>sb_current_step := 1\<rparr>),
        mod_rng\<lparr>rng_pos := 1\<rparr>)"
    by (simp add: SearchBandit_step_def SearchBandit_init_def np_getitem_def np_position_def
          np_dot_def np_random_rand_def mod_rng_def advance_def)
  have r: "RecommenderSystemBandit_step (RecommenderSystemBandit_init [[3/2, 1/2]] 2 5) 0 [0, 0] mod_rng
     = (Inr ((1, False),
             (RecommenderSystemBandit_init [[3/2, 1/2]] 2 5)\<lparr>rs_current_step := 1\<rparr>),
        mod_rng\<lparr>rng_pos := 1\<rparr>)"
    by (simp add: RecommenderSystemBandit_step_def RecommenderSystemBandit_init_def np_getitem_def
          np_position_def np_dot_def np_random_rand_def mod_rng_def advance_def)
  have g: "RecommenderSystemGymEnv_step
       \<lparr>rg_item_weights = [[3/2, 1/2]], rg_k = 1, rg_context_dim = 2, rg_num_users = 1,
        rg_current_step = 0, rg_context = Some [0, 0]\<rparr> 0 mod_rng
     = (Inr (([0, 0], 1, True, False, ()),
             \<lparr>rg_item_weights = [[3/2, 1/2]], rg_k = 1, rg_context_dim = 2, rg_num_users = 1,
              rg_current_step = 1, rg_context = Some [0, 0]\<rparr>),
        mod_rng\<lparr>rng_pos := 2\<rparr>)"
    by (simp add: RecommenderSystemGymEnv_step_def np_getitem_def np_position_def np_dot_def
          np_random_rand_def np_random_randn_def mod_rng_def advance_def numeral_2_eq_2
          astype_float32_def round_binary_def Let_def)
  from init calls f0 f1 s r g show ?thesis by (intro conjI)
qed

end
